theory Spec2Isabelle
  imports Main "HOL-Library.Word"
begin

section \<open>Data model of \<open>asyncssh/channel.py\<close>\<close>

text \<open>
  The class \<open>SSHChannel\<close> is embedded as a record of its attributes. Python integers are
  \<open>int\<close>, attributes that start as \<open>None\<close> are options, byte strings are lists of
  8-bit words and a Python \<open>str\<close> is the list of its code points.
\<close>

type_synonym byte = "8 word"
type_synonym bytes = "byte list"
type_synonym pystr = "nat list"

datatype send_st =
  S_closed | S_open_sent | S_open_received | S_open
  | S_eof_pending | S_eof_sent | S_close_pending | S_close_sent

datatype recv_st = R_closed | R_open | R_eof_received

text \<open>Every exception the modelled methods can raise is a value of \<open>error\<close>.\<close>

datatype error =
  DisconnectError string
  | OSError string
  | BrokenPipeError string
  | ValueError
  | TypeError
  | AttributeError
  | InvalidStateError
  | UnicodeDecodeError
  | UnicodeEncodeError
  | LookupError

text \<open>The channel messages handed to \<open>_send_packet\<close>, with their arguments.\<close>

datatype msg =
  MSG_CHANNEL_WINDOW_ADJUST int
  | MSG_CHANNEL_DATA bytes
  | MSG_CHANNEL_EXTENDED_DATA nat bytes
  | MSG_CHANNEL_EOF
  | MSG_CHANNEL_CLOSE
  | MSG_CHANNEL_REQUEST string bool bytes
  | MSG_CHANNEL_SUCCESS
  | MSG_CHANNEL_FAILURE

text \<open>
  The connection and the session are collaborators outside the file. Their effect is
  kept as two logs of the calls the channel makes on them, in order.
\<close>

datatype conn_call =
  Send_packet nat msg
  | Send_channel_open string "nat option" int int
  | Send_channel_open_confirmation "nat option" "nat option" int int
  | Remove_channel nat

datatype sdata = Raw bytes | Str pystr

datatype session_call =
  Connection_made
  | Connection_lost "string option"
  | Session_started
  | Data_received sdata "nat option"
  | Eof_received
  | Pause_writing
  | Resume_writing

text \<open>
  A session is passive here: its callbacks do not call back into the channel, and
  \<open>eof_received()\<close> returns the fixed value the session carries.
\<close>

datatype session = Session (eof_received_result: bool)

text \<open>
  \<open>asyncio.Future\<close>: pending, cancelled, or done with a result or an exception. The
  channel and the awaiting coroutine share the object, so the futures live in a store
  and the channel holds their indices.
\<close>

datatype fresult = Res_none | Res_bool bool | Res_packet bytes

datatype open_code = OPEN_CONNECT_FAILED | Peer_code nat

datatype fexc = ChannelOpenError open_code string | Conn_exception "string option"

datatype future = Pending | Cancelled | Has_result fresult | Has_exception fexc

text \<open>An item of \<open>_recv_buf\<close>: a byte string or the sentinel \<open>_EOF\<close>.\<close>

datatype rdata = Data bytes | EOF

record channel =
  conn :: bool
  session :: "session option"
  encoding :: "string option"
  send_state :: send_st
  send_chan :: "nat option"
  send_window :: "int option"
  send_pktsize :: "int option"
  send_paused :: bool
  send_buf :: "(bytes \<times> nat option) list"
  send_buf_len :: int
  recv_state :: recv_st
  init_recv_window :: int
  recv_window :: int
  recv_pktsize :: int
  recv_paused :: bool
  recv_buf :: "(rdata \<times> nat option) list"
  recv_partial :: "nat option \<rightharpoonup> bytes"
  open_waiter :: "nat option"
  request_waiters :: "nat list"
  close_waiters :: "nat list"
  send_high_water :: int
  send_low_water :: int
  recv_chan :: "nat option"
  read_datatypes :: "nat set"
  write_datatypes :: "nat set"
  futures :: "future list"
  conn_log :: "conn_call list"
  session_log :: "session_call list"

section \<open>Helpers: slices, collaborators\<close>

text \<open>\<open>buf[:k]\<close> and \<open>del buf[:k]\<close>; a negative \<open>k\<close> counts from the end.\<close>

definition py_take :: "int \<Rightarrow> 'a list \<Rightarrow> 'a list" where
  "py_take k xs = (if 0 \<le> k then take (nat k) xs else take (nat (int (length xs) + k)) xs)"

definition py_drop :: "int \<Rightarrow> 'a list \<Rightarrow> 'a list" where
  "py_drop k xs = (if 0 \<le> k then drop (nat k) xs else drop (nat (int (length xs) + k)) xs)"

text \<open>\<open>_send_packet\<close>: raises \<open>OSError\<close> while \<open>_send_chan\<close> is \<open>None\<close>.\<close>

definition send_packet :: "channel \<Rightarrow> msg \<Rightarrow> error + channel" where
  "send_packet c m =
     (case send_chan c of
        None \<Rightarrow> Inl (OSError ''Channel not open'')
      | Some n \<Rightarrow>
          if conn c then Inr (c\<lparr>conn_log := conn_log c @ [Send_packet n m]\<rparr>)
          else Inl AttributeError)"

text \<open>A callback on \<open>self._session\<close>; on \<open>None\<close> Python raises \<open>AttributeError\<close>.\<close>

definition call_session :: "channel \<Rightarrow> session_call \<Rightarrow> error + channel" where
  "call_session c k =
     (case session c of
        None \<Rightarrow> Inl AttributeError
      | Some s \<Rightarrow> Inr (c\<lparr>session_log := session_log c @ [k]\<rparr>))"

section \<open>The send path\<close>

definition pause_resume_writing :: "channel \<Rightarrow> error + channel" where
  "pause_resume_writing c =
     (if send_paused c then
        (if send_buf_len c \<le> send_low_water c
         then call_session (c\<lparr>send_paused := False\<rparr>) Resume_writing
         else Inr c)
      else
        (if send_buf_len c > send_high_water c
         then call_session (c\<lparr>send_paused := True\<rparr>) Pause_writing
         else Inr c))"

text \<open>The loop condition \<open>self._send_buf and self._send_window\<close>.\<close>

definition can_send :: "channel \<Rightarrow> bool" where
  "can_send c = (send_buf c \<noteq> [] \<and> (case send_window c of None \<Rightarrow> False | Some w \<Rightarrow> w \<noteq> 0))"

text \<open>One iteration of the loop of \<open>_flush_send_buf\<close>: it emits one data packet.\<close>

definition flush_step :: "channel \<Rightarrow> error + channel" where
  "flush_step c =
     (case send_buf c of
        [] \<Rightarrow> Inr c
      | (buf, datatype) # rest \<Rightarrow>
          (case send_window c of
             None \<Rightarrow> Inr c
           | Some w \<Rightarrow>
               (case send_pktsize c of
                  None \<Rightarrow> Inl TypeError
                | Some p \<Rightarrow>
                    let pktsize = min w p;
                        data = (if int (length buf) > pktsize then py_take pktsize buf else buf);
                        sb = (if int (length buf) > pktsize
                              then (py_drop pktsize buf, datatype) # rest else rest)
                    in send_packet
                         (c\<lparr>send_buf := sb,
                            send_buf_len := send_buf_len c - int (length data),
                            send_window := Some (w - int (length data))\<rparr>)
                         (case datatype of
                            None \<Rightarrow> MSG_CHANNEL_DATA data
                          | Some t \<Rightarrow> MSG_CHANNEL_EXTENDED_DATA t data))))"

text \<open>
  The \<open>while\<close> loop itself. With \<open>send_pktsize = 0\<close> and a positive window it never
  ends in the source, so the loop is a partial function: \<open>None\<close> is not returning.
\<close>

partial_function (option) flush_loop :: "channel \<Rightarrow> (error + channel) option" where
  "flush_loop c =
     (if can_send c then
        (case flush_step c of
           Inl e \<Rightarrow> Some (Inl e)
         | Inr c' \<Rightarrow> flush_loop c')
      else Some (Inr c))"

definition flush_tail :: "channel \<Rightarrow> error + channel" where
  "flush_tail c =
     (case pause_resume_writing c of
        Inl e \<Rightarrow> Inl e
      | Inr c1 \<Rightarrow>
          if send_buf c1 = [] then
            (if send_state c1 = S_eof_pending then
               (case send_packet c1 MSG_CHANNEL_EOF of
                  Inl e \<Rightarrow> Inl e
                | Inr c2 \<Rightarrow> Inr (c2\<lparr>send_state := S_eof_sent\<rparr>))
             else if send_state c1 = S_close_pending then
               (case send_packet c1 MSG_CHANNEL_CLOSE of
                  Inl e \<Rightarrow> Inl e
                | Inr c2 \<Rightarrow> Inr (c2\<lparr>send_state := S_close_sent\<rparr>))
             else Inr c1)
          else Inr c1)"

definition flush_send_buf :: "channel \<Rightarrow> (error + channel) option" where
  "flush_send_buf c =
     (case flush_loop c of
        None \<Rightarrow> None
      | Some (Inl e) \<Rightarrow> Some (Inl e)
      | Some (Inr c1) \<Rightarrow> Some (flush_tail c1))"

section \<open>Futures\<close>

text \<open>
  \<open>set_result\<close> and \<open>set_exception\<close> of \<open>asyncio.Future\<close> raise
  \<open>InvalidStateError\<close> unless the future is pending; \<open>cancel\<close> changes only a
  pending future. An index outside the store stands for no object and is refused too.
\<close>

definition new_future :: "channel \<Rightarrow> nat \<times> channel" where
  "new_future c = (length (futures c), c\<lparr>futures := futures c @ [Pending]\<rparr>)"

definition cancelled :: "channel \<Rightarrow> nat \<Rightarrow> bool" where
  "cancelled c f = (f < length (futures c) \<and> futures c ! f = Cancelled)"

definition settle :: "channel \<Rightarrow> nat \<Rightarrow> future \<Rightarrow> error + channel" where
  "settle c f v =
     (if f < length (futures c) \<and> futures c ! f = Pending
      then Inr (c\<lparr>futures := (futures c)[f := v]\<rparr>)
      else Inl InvalidStateError)"

definition set_result :: "channel \<Rightarrow> nat \<Rightarrow> fresult \<Rightarrow> error + channel" where
  "set_result c f v = settle c f (Has_result v)"

definition set_exception :: "channel \<Rightarrow> nat \<Rightarrow> fexc \<Rightarrow> error + channel" where
  "set_exception c f e = settle c f (Has_exception e)"

definition cancel :: "channel \<Rightarrow> nat \<Rightarrow> channel" where
  "cancel c f =
     (if f < length (futures c) \<and> futures c ! f = Pending
      then c\<lparr>futures := (futures c)[f := Cancelled]\<rparr> else c)"

section \<open>Construction and the write side\<close>

text \<open>
  \<open>__init__\<close>. The number \<open>conn.add_channel\<close> returns and the two class attributes
  of the variant are parameters. The water marks are those \<open>set_write_buffer_limits()\<close>
  computes from its defaults.
\<close>

definition init_channel ::
  "string option \<Rightarrow> int \<Rightarrow> int \<Rightarrow> nat \<Rightarrow> nat set \<Rightarrow> nat set \<Rightarrow> channel" where
  "init_channel enc window max_pktsize chan rd wr =
     \<lparr>conn = True, session = None, encoding = enc,
      send_state = S_closed, send_chan = None, send_window = None, send_pktsize = None,
      send_paused = False, send_buf = [], send_buf_len = 0,
      recv_state = R_closed, init_recv_window = window, recv_window = window,
      recv_pktsize = max_pktsize, recv_paused = True, recv_buf = [],
      recv_partial = Map.empty,
      open_waiter = None, request_waiters = [], close_waiters = [],
      send_high_water = 65536, send_low_water = 16384,
      recv_chan = Some chan, read_datatypes = rd, write_datatypes = wr,
      futures = [], conn_log = [], session_log = []\<rparr>"

definition set_write_buffer_limits ::
  "channel \<Rightarrow> int option \<Rightarrow> int option \<Rightarrow> error + channel" where
  "set_write_buffer_limits c high low =
     (let high' = (case high of
                     Some h \<Rightarrow> h
                   | None \<Rightarrow> (case low of Some l \<Rightarrow> 4 * l | None \<Rightarrow> 65536));
          low' = (case low of Some l \<Rightarrow> l | None \<Rightarrow> high' div 4)
      in if \<not> (0 \<le> low' \<and> low' \<le> high') then Inl ValueError
         else pause_resume_writing (c\<lparr>send_high_water := high', send_low_water := low'\<rparr>))"

text \<open>
  The codecs of the Python runtime are a parameter, a table from encoding names to
  codecs; a name it does not know raises \<open>LookupError\<close>. \<open>decode\<close> gives the text
  or the \<open>start\<close> and \<open>reason\<close> of the \<open>UnicodeDecodeError\<close>, \<open>encode\<close>
  gives the bytes or \<open>None\<close> for a \<open>UnicodeEncodeError\<close>.
\<close>

datatype decode_result = Decoded pystr | Decode_error nat string

record codec =
  decode :: "bytes \<Rightarrow> decode_result"
  encode :: "pystr \<Rightarrow> bytes option"

type_synonym codecs = "string \<Rightarrow> codec option"

text \<open>\<open>if self._encoding\<close>: \<open>None\<close> and the empty string are false.\<close>

definition encoding_set :: "channel \<Rightarrow> string option" where
  "encoding_set c = (case encoding c of None \<Rightarrow> None | Some e \<Rightarrow> if e = [] then None else Some e)"

definition sdata_len :: "sdata \<Rightarrow> nat" where
  "sdata_len d = (case d of Raw b \<Rightarrow> length b | Str s \<Rightarrow> length s)"

definition buffer_and_flush :: "channel \<Rightarrow> bytes \<Rightarrow> nat option \<Rightarrow> (error + channel) option" where
  "buffer_and_flush c b datatype =
     flush_send_buf (c\<lparr>send_buf := send_buf c @ [(b, datatype)],
                       send_buf_len := send_buf_len c + int (length b)\<rparr>)"

definition write_data :: "codecs \<Rightarrow> channel \<Rightarrow> sdata \<Rightarrow> nat option \<Rightarrow> (error + channel) option" where
  "write_data cs c data datatype =
     (if send_state c \<noteq> S_open then Some (Inl (BrokenPipeError ''Channel not open for sending''))
      else if (case datatype of None \<Rightarrow> False | Some t \<Rightarrow> t \<notin> write_datatypes c)
        then Some (Inl (OSError ''Invalid extended data type''))
      else if sdata_len data = 0 then Some (Inr c)
      else
        (case encoding_set c of
           Some enc \<Rightarrow>
             (case data of
                Raw b \<Rightarrow> Some (Inl AttributeError)
              | Str s \<Rightarrow>
                  (case cs enc of
                     None \<Rightarrow> Some (Inl LookupError)
                   | Some k \<Rightarrow>
                       (case encode k s of
                          None \<Rightarrow> Some (Inl UnicodeEncodeError)
                        | Some b \<Rightarrow> buffer_and_flush c b datatype)))
         | None \<Rightarrow>
             (case data of
                Raw b \<Rightarrow> buffer_and_flush c b datatype
              | Str s \<Rightarrow> Some (Inl TypeError))))"

definition write_eof :: "channel \<Rightarrow> (error + channel) option" where
  "write_eof c =
     (if send_state c \<noteq> S_open then Some (Inl (BrokenPipeError ''Channel not open for sending''))
      else flush_send_buf (c\<lparr>send_state := S_eof_pending\<rparr>))"

definition abort :: "channel \<Rightarrow> error + channel" where
  "abort c =
     (if send_state c \<notin> {S_close_sent, S_closed} then
        (case send_packet c MSG_CHANNEL_CLOSE of
           Inl e \<Rightarrow> Inl e
         | Inr c1 \<Rightarrow> Inr (c1\<lparr>send_state := S_close_sent\<rparr>))
      else Inr c)"

definition close :: "channel \<Rightarrow> (error + channel) option" where
  "close c =
     (if send_state c \<notin> {S_close_pending, S_close_sent, S_closed}
      then flush_send_buf (c\<lparr>send_state := S_close_pending\<rparr>)
      else Some (Inr c))"

section \<open>The receive path\<close>

text \<open>
  The \<open>while input\<close> loop of \<open>_deliver_data\<close>; it returns the channel and what is left
  of \<open>input\<close>. The valid prefix before a decode error is decoded by \<open>.decode()\<close>
  with no argument, which is UTF-8.
\<close>

function decode_loop ::
  "codecs \<Rightarrow> string \<Rightarrow> channel \<Rightarrow> nat option \<Rightarrow> bytes \<Rightarrow> error + (channel \<times> bytes)" where
  "decode_loop cs enc c datatype input =
     (if input = [] then Inr (c, input)
      else
        (case cs enc of
           None \<Rightarrow> Inl LookupError
         | Some k \<Rightarrow>
             (case decode k input of
                Decoded s \<Rightarrow>
                  (case call_session c (Data_received (Str s) datatype) of
                     Inl e \<Rightarrow> Inl e
                   | Inr c1 \<Rightarrow> Inr (c1, []))
              | Decode_error start reason \<Rightarrow>
                  if start > 0 then
                    (case cs ''utf-8'' of
                       None \<Rightarrow> Inl LookupError
                     | Some u \<Rightarrow>
                         (case decode u (take start input) of
                            Decode_error s' r' \<Rightarrow> Inl UnicodeDecodeError
                          | Decoded s \<Rightarrow>
                              (case call_session c (Data_received (Str s) datatype) of
                                 Inl e \<Rightarrow> Inl e
                               | Inr c1 \<Rightarrow>
                                   decode_loop cs enc c1 datatype (drop start input))))
                  else if reason = ''unexpected end of data'' then Inr (c, input)
                  else Inl (DisconnectError ''Unicode decode error''))))"
  by pat_completeness auto
termination
  by (relation "measure (\<lambda>(cs, enc, c, datatype, input). length input)") auto

text \<open>
  The window debit of \<open>_deliver_data\<close>. The test \<open>recv_window < init_recv_window / 2\<close>
  compares an integer with a true quotient; it is written without the division.
\<close>

definition debit_window :: "channel \<Rightarrow> nat \<Rightarrow> error + channel" where
  "debit_window c n =
     (let c1 = c\<lparr>recv_window := recv_window c - int n\<rparr>
      in if 2 * recv_window c1 < init_recv_window c1 then
           (case send_packet c1
                   (MSG_CHANNEL_WINDOW_ADJUST (init_recv_window c1 - recv_window c1)) of
              Inl e \<Rightarrow> Inl e
            | Inr c2 \<Rightarrow> Inr (c2\<lparr>recv_window := init_recv_window c2\<rparr>))
         else Inr c1)"

definition deliver_data ::
  "codecs \<Rightarrow> channel \<Rightarrow> rdata \<Rightarrow> nat option \<Rightarrow> (error + channel) option" where
  "deliver_data cs c data datatype =
     (case data of
        EOF \<Rightarrow>
          if recv_partial c datatype \<noteq> None
          then Some (Inl (DisconnectError ''Unicode decode error''))
          else
            (case session c of
               None \<Rightarrow> Some (Inl AttributeError)
             | Some s \<Rightarrow>
                 let c1 = c\<lparr>session_log := session_log c @ [Eof_received]\<rparr>
                 in if \<not> eof_received_result s then close c1 else Some (Inr c1))
      | Data d \<Rightarrow>
          (case debit_window c (length d) of
             Inl e \<Rightarrow> Some (Inl e)
           | Inr c1 \<Rightarrow>
               (case encoding_set c1 of
                  None \<Rightarrow> Some (call_session c1 (Data_received (Raw d) datatype))
                | Some enc \<Rightarrow>
                    let input = (case recv_partial c1 datatype of
                                   Some tail \<Rightarrow> tail @ d
                                 | None \<Rightarrow> d);
                        c2 = c1\<lparr>recv_partial := (recv_partial c1)(datatype := None)\<rparr>
                    in (case decode_loop cs enc c2 datatype input of
                          Inl e \<Rightarrow> Some (Inl e)
                        | Inr (c3, rest) \<Rightarrow>
                            if rest \<noteq> []
                            then Some (Inr (c3\<lparr>recv_partial :=
                                                (recv_partial c3)(datatype \<mapsto> rest)\<rparr>))
                            else Some (Inr c3)))))"

definition accept_data ::
  "codecs \<Rightarrow> channel \<Rightarrow> rdata \<Rightarrow> nat option \<Rightarrow> (error + channel) option" where
  "accept_data cs c data datatype =
     (if data = Data [] then Some (Inr c)
      else if send_state c \<in> {S_close_pending, S_close_sent, S_closed} then Some (Inr c)
      else if (case data of EOF \<Rightarrow> False | Data d \<Rightarrow> int (length d) > recv_window c)
        then Some (Inl (DisconnectError ''Window exceeded''))
      else if recv_paused c
        then Some (Inr (c\<lparr>recv_buf := recv_buf c @ [(data, datatype)]\<rparr>))
      else deliver_data cs c data datatype)"

definition process_data :: "codecs \<Rightarrow> channel \<Rightarrow> bytes \<Rightarrow> (error + channel) option" where
  "process_data cs c data =
     (if recv_state c \<noteq> R_open
      then Some (Inl (DisconnectError ''Channel not open for sending''))
      else accept_data cs c (Data data) None)"

definition process_extended_data ::
  "codecs \<Rightarrow> channel \<Rightarrow> nat \<Rightarrow> bytes \<Rightarrow> (error + channel) option" where
  "process_extended_data cs c datatype data =
     (if recv_state c \<noteq> R_open
      then Some (Inl (DisconnectError ''Channel not open for sending''))
      else if datatype \<notin> read_datatypes c
        then Some (Inl (DisconnectError ''Invalid extended data type''))
      else accept_data cs c (Data data) (Some datatype))"

definition process_eof :: "codecs \<Rightarrow> channel \<Rightarrow> (error + channel) option" where
  "process_eof cs c =
     (if recv_state c \<noteq> R_open
      then Some (Inl (DisconnectError ''Channel not open for sending''))
      else accept_data cs (c\<lparr>recv_state := R_eof_received\<rparr>) EOF None)"

definition process_window_adjust :: "channel \<Rightarrow> int \<Rightarrow> (error + channel) option" where
  "process_window_adjust c adjust =
     (if recv_state c \<notin> {R_open, R_eof_received}
      then Some (Inl (DisconnectError ''Channel not open''))
      else
        (case send_window c of
           None \<Rightarrow> Some (Inl TypeError)
         | Some w \<Rightarrow> flush_send_buf (c\<lparr>send_window := Some (w + adjust)\<rparr>)))"

definition pause_reading :: "channel \<Rightarrow> channel" where
  "pause_reading c = c\<lparr>recv_paused := True\<rparr>"

partial_function (option) resume_loop :: "codecs \<Rightarrow> channel \<Rightarrow> (error + channel) option" where
  "resume_loop cs c =
     (if recv_buf c \<noteq> [] \<and> \<not> recv_paused c then
        Option.bind
          (deliver_data cs (c\<lparr>recv_buf := tl (recv_buf c)\<rparr>)
             (fst (hd (recv_buf c))) (snd (hd (recv_buf c))))
          (\<lambda>r. case r of Inl e \<Rightarrow> Some (Inl e) | Inr c1 \<Rightarrow> resume_loop cs c1)
      else Some (Inr c))"

definition resume_reading :: "codecs \<Rightarrow> channel \<Rightarrow> (error + channel) option" where
  "resume_reading cs c =
     (if recv_paused c then resume_loop cs (c\<lparr>recv_paused := False\<rparr>) else Some (Inr c))"

section \<open>Handshake, requests and teardown\<close>

text \<open>
  \<open>_open\<close> up to its \<open>yield from\<close>: the caller is left waiting on the returned
  future.
\<close>

definition open_chan :: "channel \<Rightarrow> string \<Rightarrow> error + (channel \<times> nat)" where
  "open_chan c chantype =
     (if send_state c \<noteq> S_closed then Inl (OSError ''Channel already open'')
      else
        let (f, c1) = new_future c;
            c2 = c1\<lparr>open_waiter := Some f\<rparr>
        in if conn c2
           then Inr (c2\<lparr>conn_log := conn_log c2 @
                         [Send_channel_open chantype (recv_chan c2) (recv_window c2)
                            (recv_pktsize c2)],
                       send_state := S_open_sent\<rparr>, f)
           else Inl AttributeError)"

definition process_open_confirmation ::
  "channel \<Rightarrow> nat \<Rightarrow> int \<Rightarrow> int \<Rightarrow> bytes \<Rightarrow> error + channel" where
  "process_open_confirmation c chan window pktsize packet =
     (case open_waiter c of
        None \<Rightarrow> Inl (DisconnectError ''Channel not being opened'')
      | Some f \<Rightarrow>
          let c1 = c\<lparr>send_chan := Some chan, send_window := Some window,
                     send_pktsize := Some pktsize,
                     send_state := S_open, recv_state := R_open\<rparr>
          in if \<not> cancelled c1 f then
               (case set_result c1 f (Res_packet packet) of
                  Inl e \<Rightarrow> Inl e
                | Inr c2 \<Rightarrow> Inr (c2\<lparr>open_waiter := None\<rparr>))
             else Inr (c1\<lparr>open_waiter := None\<rparr>))"

text \<open>
  \<open>process_open\<close> and the success path of \<open>_finish_open_request\<close>, with the session
  the factory produced.
\<close>

definition process_open :: "channel \<Rightarrow> nat \<Rightarrow> int \<Rightarrow> int \<Rightarrow> error + channel" where
  "process_open c chan window pktsize =
     (if recv_state c \<noteq> R_closed then Inl (DisconnectError ''Channel already open'')
      else Inr (c\<lparr>send_state := S_open_received, send_chan := Some chan,
                  send_window := Some window, send_pktsize := Some pktsize\<rparr>))"

definition finish_open_request :: "channel \<Rightarrow> session \<Rightarrow> error + channel" where
  "finish_open_request c s =
     (let c1 = c\<lparr>session := Some s\<rparr>
      in if conn c1 then
           call_session
             (c1\<lparr>conn_log := conn_log c1 @
                    [Send_channel_open_confirmation (send_chan c1) (recv_chan c1)
                       (recv_window c1) (recv_pktsize c1)],
                  send_state := S_open, recv_state := R_open\<rparr>)
             Connection_made
         else Inl AttributeError)"

text \<open>
  \<open>_process_close\<close>; the cleanup it schedules with \<open>call_soon\<close> is a later step.
\<close>

definition process_close :: "channel \<Rightarrow> error + channel" where
  "process_close c =
     (if recv_state c \<notin> {R_open, R_eof_received}
      then Inl (DisconnectError ''Channel not open'')
      else
        let c1 = c\<lparr>send_buf := [], send_buf_len := 0\<rparr>
        in if send_state c1 \<notin> {S_close_sent, S_closed}
           then send_packet c1 MSG_CHANNEL_CLOSE
           else Inr c1)"

text \<open>
  \<open>_make_request\<close> up to its \<open>yield from\<close>: the new waiter joins the queue before
  the request is sent, and the caller waits on it.
\<close>

definition make_request :: "channel \<Rightarrow> string \<Rightarrow> bytes \<Rightarrow> error + (channel \<times> nat)" where
  "make_request c request args =
     (let (f, c1) = new_future c;
          c2 = c1\<lparr>request_waiters := request_waiters c1 @ [f]\<rparr>
      in case send_packet c2 (MSG_CHANNEL_REQUEST request True args) of
           Inl e \<Rightarrow> Inl e
         | Inr c3 \<Rightarrow> Inr (c3, f))"

text \<open>\<open>_process_response\<close>; \<open>success\<close> is \<open>pkttype == MSG_CHANNEL_SUCCESS\<close>.\<close>

definition process_response :: "channel \<Rightarrow> bool \<Rightarrow> error + channel" where
  "process_response c success =
     (if send_state c \<notin> {S_open, S_eof_pending, S_eof_sent, S_close_pending, S_close_sent}
      then Inl (DisconnectError ''Channel not open'')
      else
        (case request_waiters c of
           [] \<Rightarrow> Inl (DisconnectError ''Unexpected channel response'')
         | waiter # rest \<Rightarrow>
             let c1 = c\<lparr>request_waiters := rest\<rparr>
             in if \<not> cancelled c1 waiter
                then set_result c1 waiter (Res_bool success)
                else Inr c1))"

text \<open>The two loops of \<open>_cleanup\<close> over the waiter lists.\<close>

fun fail_waiters :: "channel \<Rightarrow> nat list \<Rightarrow> fexc \<Rightarrow> error + channel" where
  "fail_waiters c [] e = Inr c"
| "fail_waiters c (waiter # ws) e =
     (case set_exception c waiter e of
        Inl x \<Rightarrow> Inl x
      | Inr c1 \<Rightarrow> fail_waiters c1 ws e)"

fun resolve_waiters :: "channel \<Rightarrow> nat list \<Rightarrow> error + channel" where
  "resolve_waiters c [] = Inr c"
| "resolve_waiters c (waiter # ws) =
     (if \<not> cancelled c waiter then
        (case set_result c waiter Res_none of
           Inl x \<Rightarrow> Inl x
         | Inr c1 \<Rightarrow> resolve_waiters c1 ws)
      else resolve_waiters c ws)"

definition cleanup_open_waiter :: "channel \<Rightarrow> error + channel" where
  "cleanup_open_waiter c =
     (case open_waiter c of
        None \<Rightarrow> Inr c
      | Some f \<Rightarrow>
          (case set_exception c f (ChannelOpenError OPEN_CONNECT_FAILED ''SSH connection closed'') of
             Inl x \<Rightarrow> Inl x
           | Inr c1 \<Rightarrow> Inr (c1\<lparr>open_waiter := None\<rparr>)))"

text \<open>
  The end of \<open>_cleanup\<close>, which cannot raise: the session, the connection (a channel
  number \<open>0\<close> is false in \<open>if self._recv_chan\<close>) and the two states.
\<close>

definition cleanup_rest :: "channel \<Rightarrow> string option \<Rightarrow> channel" where
  "cleanup_rest c exc =
     (let c1 = (case session c of
                  None \<Rightarrow> c
                | Some s \<Rightarrow> c\<lparr>session_log := session_log c @ [Connection_lost exc],
                               session := None\<rparr>);
          c2 = (if conn c1 then
                  (case recv_chan c1 of
                     None \<Rightarrow> c1
                   | Some n \<Rightarrow>
                       if n \<noteq> 0
                       then c1\<lparr>conn_log := conn_log c1 @ [Remove_channel n], recv_chan := None\<rparr>
                       else c1)\<lparr>conn := False\<rparr>
                else c1)
      in c2\<lparr>send_state := S_closed, recv_state := R_closed\<rparr>)"

definition cleanup :: "channel \<Rightarrow> string option \<Rightarrow> error + channel" where
  "cleanup c exc =
     (case cleanup_open_waiter c of
        Inl x \<Rightarrow> Inl x
      | Inr c1 \<Rightarrow>
          (case fail_waiters c1 (request_waiters c1) (Conn_exception exc) of
             Inl x \<Rightarrow> Inl x
           | Inr c2 \<Rightarrow>
               (case resolve_waiters (c2\<lparr>request_waiters := []\<rparr>) (close_waiters c2) of
                  Inl x \<Rightarrow> Inl x
                | Inr c3 \<Rightarrow> Inr (cleanup_rest (c3\<lparr>close_waiters := []\<rparr>) exc))))"

text \<open>
  \<open>wait_closed\<close> up to its \<open>yield from\<close>: \<open>Some f\<close> is the caller suspended on the
  future \<open>f\<close>, \<open>None\<close> is the coroutine returning at once.
\<close>

definition wait_closed :: "channel \<Rightarrow> channel \<times> nat option" where
  "wait_closed c =
     (if session c \<noteq> None then
        let (f, c1) = new_future c
        in (c1\<lparr>close_waiters := close_waiters c1 @ [f]\<rparr>, Some f)
      else (c, None))"

section \<open>The UTF-8 codec of the runtime\<close>

text \<open>
  The strict UTF-8 decoder of Python, on the values of the bytes: a decoded sequence
  is its code point and the number of its continuation bytes, a failure is the reason
  Python reports. The second byte of a three- or four-byte sequence is range-checked
  so that overlong forms, surrogates and values above \<open>0x10FFFF\<close> are refused.
\<close>

datatype utf8_seq = Seq nat nat | Bad string

definition cont :: "nat \<Rightarrow> bool" where
  "cont b = (128 \<le> b \<and> b < 192)"

definition second_ok :: "nat \<Rightarrow> nat \<Rightarrow> bool" where
  "second_ok b b1 =
     ((if b = 224 then 160 else if b = 240 then 144 else 128) \<le> b1 \<and>
      b1 \<le> (if b = 237 then 159 else if b = 244 then 143 else 191))"

definition utf8_head :: "nat \<Rightarrow> nat list \<Rightarrow> utf8_seq" where
  "utf8_head b rest =
     (if b < 128 then Seq b 0
      else if b < 194 then Bad ''invalid start byte''
      else if b < 224 then
        (case rest of
           [] \<Rightarrow> Bad ''unexpected end of data''
         | b1 # r1 \<Rightarrow>
             if cont b1 then Seq ((b - 192) * 64 + (b1 - 128)) 1
             else Bad ''invalid continuation byte'')
      else if b < 240 then
        (case rest of
           [] \<Rightarrow> Bad ''unexpected end of data''
         | b1 # r1 \<Rightarrow>
             if \<not> second_ok b b1 then Bad ''invalid continuation byte''
             else
               (case r1 of
                  [] \<Rightarrow> Bad ''unexpected end of data''
                | b2 # r2 \<Rightarrow>
                    if cont b2
                    then Seq ((b - 224) * 4096 + (b1 - 128) * 64 + (b2 - 128)) 2
                    else Bad ''invalid continuation byte''))
      else if b < 245 then
        (case rest of
           [] \<Rightarrow> Bad ''unexpected end of data''
         | b1 # r1 \<Rightarrow>
             if \<not> second_ok b b1 then Bad ''invalid continuation byte''
             else
               (case r1 of
                  [] \<Rightarrow> Bad ''unexpected end of data''
                | b2 # r2 \<Rightarrow>
                    if \<not> cont b2 then Bad ''invalid continuation byte''
                    else
                      (case r2 of
                         [] \<Rightarrow> Bad ''unexpected end of data''
                       | b3 # r3 \<Rightarrow>
                           if cont b3
                           then Seq ((b - 240) * 262144 + (b1 - 128) * 4096
                                     + (b2 - 128) * 64 + (b3 - 128)) 3
                           else Bad ''invalid continuation byte'')))
      else Bad ''invalid start byte'')"

fun utf8_from :: "nat \<Rightarrow> nat list \<Rightarrow> pystr \<Rightarrow> decode_result" where
  "utf8_from pos [] acc = Decoded (rev acc)"
| "utf8_from pos (b # rest) acc =
     (case utf8_head b rest of
        Bad r \<Rightarrow> Decode_error pos r
      | Seq cp k \<Rightarrow> utf8_from (pos + 1 + k) (drop k rest) (cp # acc))"

definition utf8_decode :: "bytes \<Rightarrow> decode_result" where
  "utf8_decode bs = utf8_from 0 (map unat bs) []"

definition utf8_char :: "nat \<Rightarrow> nat list option" where
  "utf8_char cp =
     (if cp < 128 then Some [cp]
      else if cp < 2048 then Some [192 + cp div 64, 128 + cp mod 64]
      else if 55296 \<le> cp \<and> cp < 57344 then None
      else if cp < 65536
        then Some [224 + cp div 4096, 128 + (cp div 64) mod 64, 128 + cp mod 64]
      else if cp < 1114112
        then Some [240 + cp div 262144, 128 + (cp div 4096) mod 64,
                   128 + (cp div 64) mod 64, 128 + cp mod 64]
      else None)"

fun utf8_encode :: "pystr \<Rightarrow> bytes option" where
  "utf8_encode [] = Some []"
| "utf8_encode (cp # s) =
     (case utf8_char cp of
        None \<Rightarrow> None
      | Some bs \<Rightarrow>
          (case utf8_encode s of
             None \<Rightarrow> None
           | Some r \<Rightarrow> Some (map of_nat bs @ r)))"

definition utf8_codec :: codec where
  "utf8_codec = \<lparr>decode = utf8_decode, encode = utf8_encode\<rparr>"

definition py_codecs :: codecs where
  "py_codecs name = (if name = ''utf-8'' then Some utf8_codec else None)"

section \<open>Running sequences of events\<close>

text \<open>Sequencing of calls: the first exception, or the first call that does not return, ends the run.\<close>

definition and_then ::
  "(error + 'a) option \<Rightarrow> ('a \<Rightarrow> (error + 'b) option) \<Rightarrow> (error + 'b) option" where
  "and_then r f = (case r of None \<Rightarrow> None | Some (Inl e) \<Rightarrow> Some (Inl e) | Some (Inr a) \<Rightarrow> f a)"

text \<open>What an observer reads off the channel a run returns.\<close>

definition observe :: "(channel \<Rightarrow> 'a) \<Rightarrow> (error + channel) option \<Rightarrow> 'a option" where
  "observe f r = (case r of Some (Inr c) \<Rightarrow> Some (f c) | _ \<Rightarrow> None)"

text \<open>
  Inbound data packets, \<open>CHANNEL_DATA\<close> with datatype \<open>None\<close> and
  \<open>CHANNEL_EXTENDED_DATA\<close> otherwise, dispatched to their handlers in order.
\<close>

definition process_packet ::
  "codecs \<Rightarrow> channel \<Rightarrow> nat option \<times> bytes \<Rightarrow> (error + channel) option" where
  "process_packet cs c pkt =
     (case fst pkt of
        None \<Rightarrow> process_data cs c (snd pkt)
      | Some t \<Rightarrow> process_extended_data cs c t (snd pkt))"

fun feed_packets ::
  "codecs \<Rightarrow> channel \<Rightarrow> (nat option \<times> bytes) list \<Rightarrow> (error + channel) option" where
  "feed_packets cs c [] = Some (Inr c)"
| "feed_packets cs c (pkt # pkts) =
     and_then (process_packet cs c pkt) (\<lambda>c1. feed_packets cs c1 pkts)"

text \<open>The values of the \<open>WINDOW_ADJUST\<close> packets, the \<open>CLOSE\<close> packets and the data
  packets in a log of the connection.\<close>

fun window_adjusts :: "conn_call list \<Rightarrow> int list" where
  "window_adjusts [] = []"
| "window_adjusts (Send_packet n (MSG_CHANNEL_WINDOW_ADJUST k) # xs) = k # window_adjusts xs"
| "window_adjusts (x # xs) = window_adjusts xs"

fun is_close :: "conn_call \<Rightarrow> bool" where
  "is_close (Send_packet n MSG_CHANNEL_CLOSE) = True"
| "is_close x = False"

definition closes :: "channel \<Rightarrow> nat" where
  "closes c = length (filter is_close (conn_log c))"

text \<open>
  The channel's own account of the payload taken since its last \<open>WINDOW_ADJUST\<close>:
  what is missing from \<open>recv_window\<close>.
\<close>

definition since_adjust :: "channel \<Rightarrow> int" where
  "since_adjust c = init_recv_window c - recv_window c"

text \<open>
  Requests and responses in any interleaving. The run returns the futures of the
  requests in the order they were issued.
\<close>

datatype req_event = Request string bytes | Response bool

fun run_requests :: "channel \<Rightarrow> req_event list \<Rightarrow> error + (channel \<times> nat list)" where
  "run_requests c [] = Inr (c, [])"
| "run_requests c (Request r a # evs) =
     (case make_request c r a of
        Inl e \<Rightarrow> Inl e
      | Inr (c1, f) \<Rightarrow>
          (case run_requests c1 evs of
             Inl e \<Rightarrow> Inl e
           | Inr (c2, fs) \<Rightarrow> Inr (c2, f # fs)))"
| "run_requests c (Response b # evs) =
     (case process_response c b of
        Inl e \<Rightarrow> Inl e
      | Inr c1 \<Rightarrow> run_requests c1 evs)"

fun responses :: "req_event list \<Rightarrow> bool list" where
  "responses [] = []"
| "responses (Request r a # evs) = responses evs"
| "responses (Response b # evs) = b # responses evs"

text \<open>Calls of \<open>close()\<close> and arrivals of \<open>WINDOW_ADJUST\<close> in any order.\<close>

datatype close_event = Call_close | Window_adjust int

fun run_close :: "channel \<Rightarrow> close_event list \<Rightarrow> (error + channel) option" where
  "run_close c [] = Some (Inr c)"
| "run_close c (Call_close # evs) = and_then (close c) (\<lambda>c1. run_close c1 evs)"
| "run_close c (Window_adjust n # evs) =
     and_then (process_window_adjust c n) (\<lambda>c1. run_close c1 evs)"

text \<open>
  A channel ready to send: connection and session present, the peer's channel number
  known, its packet size positive and its window not negative.
\<close>

definition ready :: "channel \<Rightarrow> bool" where
  "ready c =
     (conn c \<and> session c \<noteq> None \<and> send_chan c \<noteq> None
      \<and> (case send_pktsize c of None \<Rightarrow> False | Some p \<Rightarrow> 0 < p)
      \<and> (case send_window c of None \<Rightarrow> False | Some w \<Rightarrow> 0 \<le> w))"

text \<open>The work left in the send buffer: its bytes and its chunks.\<close>

definition backlog :: "channel \<Rightarrow> nat" where
  "backlog c = sum_list (map (\<lambda>x. length (fst x)) (send_buf c)) + length (send_buf c)"

text \<open>
  Where a graceful close stands on a channel that had sent \<open>k\<close> \<open>CHANNEL_CLOSE\<close>
  packets before it: pending with data still buffered and no further close sent, or
  sent, the buffer drained, with exactly one more.
\<close>

definition close_progress :: "nat \<Rightarrow> channel \<Rightarrow> bool" where
  "close_progress k c =
     (send_state c = S_close_pending \<and> send_buf c \<noteq> [] \<and> closes c = k
      \<or> send_state c = S_close_sent \<and> send_buf c = [] \<and> closes c = Suc k)"

section \<open>Concrete channels\<close>

text \<open>
  \<open>EXTENDED_DATA_STDERR\<close> is imported from \<open>constants.py\<close>; its value is the one of
  RFC 4254.
\<close>

definition EXTENDED_DATA_STDERR :: nat where
  "EXTENDED_DATA_STDERR = 1"

text \<open>
  A channel with local number 1 that answered a peer's open request: the state
  \<open>process_open\<close> and \<open>_finish_open_request\<close> leave, reading still paused.
\<close>

definition opened :: "string option \<Rightarrow> int \<Rightarrow> nat set \<Rightarrow> nat set \<Rightarrow> int \<Rightarrow> channel" where
  "opened enc window rd wr peer_window =
     (init_channel enc window 32768 1 rd wr)
       \<lparr>session := Some (Session True), send_state := S_open, send_chan := Some 0,
        send_window := Some peer_window, send_pktsize := Some 32768, recv_state := R_open,
        conn_log := [Send_channel_open_confirmation (Some 0) (Some 1) window 32768],
        session_log := [Connection_made]\<rparr>"

text \<open>The same channel once \<open>resume_reading()\<close> has been called.\<close>

definition reading :: "string option \<Rightarrow> int \<Rightarrow> nat set \<Rightarrow> nat set \<Rightarrow> int \<Rightarrow> channel" where
  "reading enc window rd wr peer_window = (opened enc window rd wr peer_window)\<lparr>recv_paused := False\<rparr>"

text \<open>
  A channel that sent \<open>CHANNEL_OPEN\<close> and received the confirmation: open, its open
  waiter (future 0) resolved, and no session installed yet.
\<close>

definition confirmed :: channel where
  "confirmed =
     (init_channel None 2097152 32768 1 {} {})
       \<lparr>send_state := S_open, send_chan := Some 0, send_window := Some 2097152,
        send_pktsize := Some 32768, recv_state := R_open,
        futures := [Has_result (Res_packet [])],
        conn_log := [Send_channel_open ''session'' (Some 1) 2097152 32768]\<rparr>"

text \<open>A channel whose peer window is closed, with six written bytes waiting.\<close>

definition backlogged :: channel where
  "backlogged = (opened None 100 {} {} 0)\<lparr>send_buf := [(replicate 6 7, None)], send_buf_len := 6\<rparr>"

section \<open>Basic facts\<close>

lemmas recv_defs = process_packet_def process_data_def process_extended_data_def process_eof_def
  accept_data_def deliver_data_def debit_window_def send_packet_def call_session_def encoding_set_def

lemmas chan_defs = opened_def reading_def confirmed_def init_channel_def

lemmas send_defs = flush_send_buf_def flush_tail_def flush_step_def can_send_def
  pause_resume_writing_def send_packet_def call_session_def py_take_def py_drop_def

lemmas utf8_defs = py_codecs_def utf8_codec_def utf8_decode_def utf8_head_def second_ok_def cont_def

text \<open>The concrete channels are states the handshake really produces.\<close>

lemma init_limits:
  "set_write_buffer_limits (init_channel enc w p n rd wr) None None = Inr (init_channel enc w p n rd wr)"
  by (simp add: set_write_buffer_limits_def pause_resume_writing_def init_channel_def)

lemma opened_reachable:
  "and_then (Some (process_open (init_channel enc window 32768 1 rd wr) 0 pw 32768))
     (\<lambda>c1. Some (finish_open_request c1 (Session True))) = Some (Inr (opened enc window rd wr pw))"
  by (simp add: and_then_def process_open_def init_channel_def finish_open_request_def
      call_session_def opened_def)

lemma reading_reachable:
  "resume_reading cs (opened enc window rd wr pw) = Some (Inr (reading enc window rd wr pw))"
  by (simp add: resume_reading_def resume_loop.simps chan_defs)

lemma confirmed_reachable:
  "(case open_chan (init_channel None 2097152 32768 1 {} {}) ''session'' of
      Inl e \<Rightarrow> Inl e
    | Inr (c, f) \<Rightarrow> process_open_confirmation c 0 2097152 32768 []) = Inr confirmed"
  by (simp add: open_chan_def new_future_def process_open_confirmation_def cancelled_def
      set_result_def settle_def chan_defs)

lemma window_adjusts_append:
  "window_adjusts (xs @ ys) = window_adjusts xs @ window_adjusts ys"
  by (induction xs rule: window_adjusts.induct) simp_all

text \<open>A future is settled only while it is pending.\<close>

lemma settle_frame:
  "settle c f v = Inr c' \<Longrightarrow>
     c' = c\<lparr>futures := (futures c)[f := v]\<rparr> \<and> f < length (futures c) \<and> futures c ! f = Pending"
  by (auto simp: settle_def split: if_splits)

text \<open>Session callbacks and the decoding loop touch nothing but the session's log.\<close>

lemma call_session_frame:
  "call_session c k = Inr c' \<Longrightarrow> \<exists>l. c' = c\<lparr>session_log := l\<rparr>"
  by (auto simp: call_session_def split: option.splits)

lemma decode_loop_frame:
  "decode_loop cs enc c dt input = Inr (c', rest) \<Longrightarrow> \<exists>l. c' = c\<lparr>session_log := l\<rparr>"
proof (induction cs enc c dt input rule: decode_loop.induct)
  case (1 cs enc c dt input)
  show ?case
  proof (cases "input = []")
    case True
    with "1.prems" have "c' = c" by simp
    then have "c' = c\<lparr>session_log := session_log c\<rparr>" by simp
    then show ?thesis by blast
  next
    case False
    from "1.prems" False obtain k where k: "cs enc = Some k"
      by (auto split: option.splits)
    show ?thesis
    proof (cases "decode k input")
      case (Decoded s)
      with "1.prems" False k show ?thesis
        by (auto split: sum.splits dest: call_session_frame)
    next
      case (Decode_error start reason)
      show ?thesis
      proof (cases "start > 0")
        case True
        from "1.prems" False k Decode_error True obtain u where u: "cs ''utf-8'' = Some u"
          by (auto split: option.splits)
        from "1.prems" False k Decode_error True u obtain s
          where s: "decode u (take start input) = Decoded s"
          by (auto split: decode_result.splits)
        from "1.prems" False k Decode_error True u s obtain c1 where
          c1: "call_session c (Data_received (Str s) dt) = Inr c1"
          and r: "decode_loop cs enc c1 dt (drop start input) = Inr (c', rest)"
          by (auto split: sum.splits)
        from "1.IH" [OF False k Decode_error True u s c1 r]
        obtain l where l: "c' = c1\<lparr>session_log := l\<rparr>" by blast
        from call_session_frame [OF c1] obtain l1 where "c1 = c\<lparr>session_log := l1\<rparr>" by blast
        with l have "c' = c\<lparr>session_log := l\<rparr>" by simp
        then show ?thesis by blast
      next
        case F: False
        with "1.prems" False k Decode_error have "c' = c"
          by (auto split: if_splits)
        then have "c' = c\<lparr>session_log := session_log c\<rparr>" by simp
        then show ?thesis by blast
      qed
    qed
  qed
qed

section \<open>The receive window (C1)\<close>

text \<open>
  C1, as the specification states it: whenever the peer overruns \<open>recv_window\<close>, also
  while the local side has a close pending or sent, a protocol error is raised.
  \<open>_accept_data\<close> returns before the window test once the local side is closing: after
  \<open>abort()\<close>, a packet of 200 bytes on a window of 100 is dropped and nothing is
  raised.
\<close>

theorem closing_overrun_counterexample:
  "observe (\<lambda>c. (recv_window c, send_state c, recv_buf c, conn_log c))
     (and_then (Some (abort (reading None 100 {} {} 2097152)))
        (\<lambda>c1. process_data py_codecs c1 (replicate 200 0)))
   = Some (100, S_close_sent, [],
           [Send_channel_open_confirmation (Some 0) (Some 1) 100 32768,
            Send_packet 0 MSG_CHANNEL_CLOSE])"
  by (simp add: observe_def and_then_def abort_def recv_defs chan_defs)

text \<open>The debit either stays above half of the window or sends the adjustment.\<close>

lemma debit_window_frame:
  assumes "debit_window c n = Inr c1"
  shows "(\<not> 2 * (recv_window c - int n) < init_recv_window c
          \<and> c1 = c\<lparr>recv_window := recv_window c - int n\<rparr>)
       \<or> (2 * (recv_window c - int n) < init_recv_window c
          \<and> (\<exists>k. c1 = c\<lparr>recv_window := init_recv_window c,
                         conn_log := conn_log c @
                           [Send_packet k (MSG_CHANNEL_WINDOW_ADJUST
                              (init_recv_window c - (recv_window c - int n)))]\<rparr>))"
proof (cases "2 * (recv_window c - int n) < init_recv_window c")
  case False
  with assms show ?thesis by (simp add: debit_window_def)
next
  case True
  let ?c1 = "c\<lparr>recv_window := recv_window c - int n\<rparr>"
  from True assms obtain c2 where
    s: "send_packet ?c1 (MSG_CHANNEL_WINDOW_ADJUST (init_recv_window c - (recv_window c - int n))) = Inr c2"
    and c1: "c1 = c2\<lparr>recv_window := init_recv_window c2\<rparr>"
    by (auto simp: debit_window_def Let_def split: sum.splits)
  from s obtain k where "c2 = ?c1\<lparr>conn_log := conn_log ?c1 @
      [Send_packet k (MSG_CHANNEL_WINDOW_ADJUST (init_recv_window c - (recv_window c - int n)))]\<rparr>"
    by (auto simp: send_packet_def split: option.splits if_splits)
  with c1 have "c1 = c\<lparr>recv_window := init_recv_window c,
                         conn_log := conn_log c @
                           [Send_packet k (MSG_CHANNEL_WINDOW_ADJUST
                              (init_recv_window c - (recv_window c - int n)))]\<rparr>"
    by simp
  with True show ?thesis by blast
qed

text \<open>After the debit, delivery touches only \<open>recv_partial\<close> and the session's log.\<close>

lemma deliver_data_frame:
  assumes "deliver_data cs c (Data d) dt = Some (Inr c')"
  shows "\<exists>c1 m l. debit_window c (length d) = Inr c1 \<and> c' = c1\<lparr>recv_partial := m, session_log := l\<rparr>"
proof -
  from assms obtain c1 where dw: "debit_window c (length d) = Inr c1"
    by (auto simp: deliver_data_def split: sum.splits)
  show ?thesis
  proof (cases "encoding_set c1")
    case None
    with assms dw have "call_session c1 (Data_received (Raw d) dt) = Inr c'"
      by (simp add: deliver_data_def)
    from call_session_frame [OF this] obtain l where "c' = c1\<lparr>session_log := l\<rparr>" by blast
    then have "c' = c1\<lparr>recv_partial := recv_partial c1, session_log := l\<rparr>" by simp
    with dw show ?thesis by blast
  next
    case (Some enc)
    define input where "input = (case recv_partial c1 dt of Some tail \<Rightarrow> tail @ d | None \<Rightarrow> d)"
    define c2 where "c2 = c1\<lparr>recv_partial := (recv_partial c1)(dt := None)\<rparr>"
    from assms dw Some obtain c3 rest where
      dl: "decode_loop cs enc c2 dt input = Inr (c3, rest)"
      and c': "c' = (if rest \<noteq> [] then c3\<lparr>recv_partial := (recv_partial c3)(dt \<mapsto> rest)\<rparr> else c3)"
      by (auto simp: deliver_data_def Let_def input_def c2_def split: sum.splits prod.splits if_splits)
    from decode_loop_frame [OF dl] obtain l where "c3 = c2\<lparr>session_log := l\<rparr>" by blast
    then have c3: "c3 = c1\<lparr>recv_partial := (recv_partial c1)(dt := None), session_log := l\<rparr>"
      by (simp add: c2_def)
    show ?thesis
    proof (cases "rest = []")
      case True
      with c' c3 dw show ?thesis by auto
    next
      case False
      with c' c3 have "c' = c1\<lparr>recv_partial := (recv_partial c1)(dt \<mapsto> rest), session_log := l\<rparr>"
        by simp
      with dw show ?thesis by blast
    qed
  qed
qed


text \<open>
  One accepted packet on a channel that is reading and not closing: its length joins
  the account, or the adjustment is sent for the whole account and it starts again.
\<close>

lemma accept_data_account:
  assumes "send_state c \<notin> {S_close_pending, S_close_sent, S_closed}" and "\<not> recv_paused c"
    and "accept_data cs c (Data d) dt = Some (Inr c')"
  shows "send_state c' = send_state c \<and> recv_paused c' = recv_paused c
     \<and> init_recv_window c' = init_recv_window c
     \<and> int (length d) \<le> max 0 (recv_window c)
     \<and> (since_adjust c' = since_adjust c + int (length d)
          \<and> window_adjusts (conn_log c') = window_adjusts (conn_log c)
        \<or> since_adjust c' = 0
          \<and> window_adjusts (conn_log c') = window_adjusts (conn_log c) @ [since_adjust c + int (length d)])"
proof (cases "d = []")
  case True
  with assms(3) have "c' = c" by (simp add: accept_data_def)
  with True show ?thesis by simp
next
  case False
  with assms have le: "int (length d) \<le> recv_window c"
    and del: "deliver_data cs c (Data d) dt = Some (Inr c')"
    by (auto simp: accept_data_def split: if_splits)
  from deliver_data_frame [OF del] obtain c1 m l where
    dw: "debit_window c (length d) = Inr c1" and c': "c' = c1\<lparr>recv_partial := m, session_log := l\<rparr>"
    by blast
  from debit_window_frame [OF dw] show ?thesis
  proof
    assume "\<not> 2 * (recv_window c - int (length d)) < init_recv_window c
          \<and> c1 = c\<lparr>recv_window := recv_window c - int (length d)\<rparr>"
    with c' have "c' = c\<lparr>recv_window := recv_window c - int (length d),
                         recv_partial := m, session_log := l\<rparr>"
      by simp
    with le show ?thesis by (simp add: since_adjust_def)
  next
    assume "2 * (recv_window c - int (length d)) < init_recv_window c
          \<and> (\<exists>k. c1 = c\<lparr>recv_window := init_recv_window c,
                         conn_log := conn_log c @
                           [Send_packet k (MSG_CHANNEL_WINDOW_ADJUST
                              (init_recv_window c - (recv_window c - int (length d))))]\<rparr>)"
    then obtain k where "c1 = c\<lparr>recv_window := init_recv_window c,
                         conn_log := conn_log c @
                           [Send_packet k (MSG_CHANNEL_WINDOW_ADJUST
                              (init_recv_window c - (recv_window c - int (length d))))]\<rparr>"
      by blast
    with c' have "c' = c\<lparr>recv_window := init_recv_window c,
                         conn_log := conn_log c @
                           [Send_packet k (MSG_CHANNEL_WINDOW_ADJUST
                              (init_recv_window c - (recv_window c - int (length d))))],
                         recv_partial := m, session_log := l\<rparr>"
      by simp
    with le show ?thesis by (simp add: since_adjust_def window_adjusts_append)
  qed
qed

lemma process_packet_account:
  assumes "send_state c \<notin> {S_close_pending, S_close_sent, S_closed}" and "\<not> recv_paused c"
    and "0 \<le> since_adjust c" and "since_adjust c \<le> init_recv_window c"
    and "process_packet cs c pkt = Some (Inr c')"
  shows "send_state c' \<notin> {S_close_pending, S_close_sent, S_closed} \<and> \<not> recv_paused c'
     \<and> 0 \<le> since_adjust c' \<and> since_adjust c' \<le> init_recv_window c'"
proof -
  from assms(5) have "accept_data cs c (Data (snd pkt)) (fst pkt) = Some (Inr c')"
    by (auto simp: process_packet_def process_data_def process_extended_data_def
        split: option.splits if_splits)
  from accept_data_account [OF assms(1,2) this] assms(1-4) show ?thesis
    by (auto simp: since_adjust_def)
qed

lemma feed_packets_account:
  "send_state c \<notin> {S_close_pending, S_close_sent, S_closed} \<Longrightarrow> \<not> recv_paused c
     \<Longrightarrow> 0 \<le> since_adjust c \<Longrightarrow> since_adjust c \<le> init_recv_window c
     \<Longrightarrow> feed_packets cs c pkts = Some (Inr c')
     \<Longrightarrow> 0 \<le> since_adjust c' \<and> since_adjust c' \<le> init_recv_window c'"
proof (induction pkts arbitrary: c)
  case Nil
  then show ?case by simp
next
  case (Cons pkt pkts)
  from Cons.prems(5) obtain c1 where p: "process_packet cs c pkt = Some (Inr c1)"
    and r: "feed_packets cs c1 pkts = Some (Inr c')"
    by (auto simp: and_then_def split: option.splits sum.splits)
  from process_packet_account [OF Cons.prems(1-4) p] have
    "send_state c1 \<notin> {S_close_pending, S_close_sent, S_closed}" "\<not> recv_paused c1"
    "0 \<le> since_adjust c1" "since_adjust c1 \<le> init_recv_window c1"
    by simp_all
  from Cons.IH [OF this r] show ?case .
qed

text \<open>
  C1, amended. While the local side has no close pending or sent, a data packet longer
  than \<open>recv_window\<close> raises the protocol error \<open>Window exceeded\<close>, paused or not.
  While in addition reading is not paused, \<open>init_recv_window - recv_window\<close> is the
  payload accepted since the last \<open>WINDOW_ADJUST\<close>: an accepted packet adds its
  length to it, or makes the channel send a \<open>WINDOW_ADJUST\<close> with the whole sum and
  start again from 0; over every sequence of data and extended data packets it stays
  between 0 and \<open>init_recv_window\<close>. Once the local side is closing, inbound data is
  dropped and the channel is unchanged.
\<close>

theorem recv_window_enforced:
  "(send_state c \<notin> {S_close_pending, S_close_sent, S_closed} \<and> d \<noteq> []
      \<and> recv_window c < int (length d)
      \<longrightarrow> accept_data cs c (Data d) dt = Some (Inl (DisconnectError ''Window exceeded'')))
   \<and> (send_state c \<notin> {S_close_pending, S_close_sent, S_closed} \<and> \<not> recv_paused c
      \<and> accept_data cs c (Data d) dt = Some (Inr c1)
      \<longrightarrow> since_adjust c1 = since_adjust c + int (length d)
            \<and> window_adjusts (conn_log c1) = window_adjusts (conn_log c)
          \<or> since_adjust c1 = 0
            \<and> window_adjusts (conn_log c1)
                = window_adjusts (conn_log c) @ [since_adjust c + int (length d)])
   \<and> (send_state c \<notin> {S_close_pending, S_close_sent, S_closed} \<and> \<not> recv_paused c
      \<and> 0 \<le> since_adjust c \<and> since_adjust c \<le> init_recv_window c
      \<and> feed_packets cs c pkts = Some (Inr c')
      \<longrightarrow> 0 \<le> since_adjust c' \<and> since_adjust c' \<le> init_recv_window c')
   \<and> (send_state c \<in> {S_close_pending, S_close_sent, S_closed}
      \<longrightarrow> accept_data cs c (Data d) dt = Some (Inr c))"
proof -
  have overrun: "accept_data cs c (Data d) dt = Some (Inl (DisconnectError ''Window exceeded''))"
    if "send_state c \<notin> {S_close_pending, S_close_sent, S_closed}" "d \<noteq> []"
      "recv_window c < int (length d)"
    using that by (simp add: accept_data_def)
  have step: "since_adjust c1 = since_adjust c + int (length d)
            \<and> window_adjusts (conn_log c1) = window_adjusts (conn_log c)
          \<or> since_adjust c1 = 0
            \<and> window_adjusts (conn_log c1)
                = window_adjusts (conn_log c) @ [since_adjust c + int (length d)]"
    if "send_state c \<notin> {S_close_pending, S_close_sent, S_closed}" "\<not> recv_paused c"
      "accept_data cs c (Data d) dt = Some (Inr c1)"
    using accept_data_account [OF that] by blast
  have run: "0 \<le> since_adjust c' \<and> since_adjust c' \<le> init_recv_window c'"
    if "send_state c \<notin> {S_close_pending, S_close_sent, S_closed}" "\<not> recv_paused c"
      "0 \<le> since_adjust c" "since_adjust c \<le> init_recv_window c"
      "feed_packets cs c pkts = Some (Inr c')"
    using feed_packets_account [OF that] .
  have dropped: "accept_data cs c (Data d) dt = Some (Inr c)"
    if "send_state c \<in> {S_close_pending, S_close_sent, S_closed}"
    using that by (simp add: accept_data_def)
  from overrun step run dropped show ?thesis by blast
qed

text \<open>
  A window of 100: 101 bytes are refused, 30 bytes are accounted for, three packets of
  30 keep the account within the window, and 200 bytes after a close are dropped.
\<close>

theorem recv_window_enforced_witness:
  "send_state (reading None 100 {} {} 2097152) \<notin> {S_close_pending, S_close_sent, S_closed}
   \<and> \<not> recv_paused (reading None 100 {} {} 2097152)
   \<and> since_adjust (reading None 100 {} {} 2097152) = 0
   \<and> accept_data py_codecs (reading None 100 {} {} 2097152) (Data (replicate 101 0)) None
       = Some (Inl (DisconnectError ''Window exceeded''))
   \<and> (\<exists>c1. accept_data py_codecs (reading None 100 {} {} 2097152) (Data (replicate 30 0)) None
            = Some (Inr c1)
          \<and> since_adjust c1 = 30)
   \<and> (\<exists>c'. feed_packets py_codecs (reading None 100 {} {} 2097152)
            [(None, replicate 30 0), (None, replicate 30 0), (None, replicate 30 0)]
            = Some (Inr c')
          \<and> 0 \<le> since_adjust c' \<and> since_adjust c' \<le> init_recv_window c')
   \<and> accept_data py_codecs ((reading None 100 {} {} 2097152)\<lparr>send_state := S_close_sent\<rparr>)
         (Data (replicate 200 0)) None
       = Some (Inr ((reading None 100 {} {} 2097152)\<lparr>send_state := S_close_sent\<rparr>))"
proof -
  let ?c = "reading None 100 {} {} 2097152"
  let ?pkts = "[(None, replicate 30 0), (None, replicate 30 0), (None, replicate 30 0)]"
  have st: "send_state ?c \<notin> {S_close_pending, S_close_sent, S_closed}"
    and rp: "\<not> recv_paused ?c" and sa: "since_adjust ?c = 0"
    and iw: "init_recv_window ?c = 100"
    by (simp_all add: since_adjust_def chan_defs)
  note overrun = recv_window_enforced [THEN conjunct1, rule_format]
  note step = recv_window_enforced [THEN conjunct2, THEN conjunct1, rule_format]
  note run = recv_window_enforced [THEN conjunct2, THEN conjunct2, THEN conjunct1, rule_format]
  note dropped = recv_window_enforced [THEN conjunct2, THEN conjunct2, THEN conjunct2, rule_format]
  have d: "replicate 101 (0::byte) \<noteq> []" by simp
  have w: "recv_window ?c < int (length (replicate 101 (0::byte)))" by (simp add: chan_defs)
  from overrun [OF conjI [OF st conjI [OF d w]]]
  have a: "accept_data py_codecs ?c (Data (replicate 101 0)) None
       = Some (Inl (DisconnectError ''Window exceeded''))" .
  obtain c1 where acc: "accept_data py_codecs ?c (Data (replicate 30 0)) None = Some (Inr c1)"
    and wa: "window_adjusts (conn_log c1) = []"
    by (simp add: recv_defs chan_defs)
  have wa0: "window_adjusts (conn_log ?c) = []" by (simp add: chan_defs)
  from step [OF conjI [OF st conjI [OF rp acc]]] sa wa wa0 have b: "since_adjust c1 = 30"
    by simp
  obtain c' where feed: "feed_packets py_codecs ?c ?pkts = Some (Inr c')"
    by (simp add: and_then_def recv_defs chan_defs)
  from sa iw have s0: "0 \<le> since_adjust ?c" and s1: "since_adjust ?c \<le> init_recv_window ?c"
    by simp_all
  from run [OF conjI [OF st conjI [OF rp conjI [OF s0 conjI [OF s1 feed]]]]]
  have c: "0 \<le> since_adjust c' \<and> since_adjust c' \<le> init_recv_window c'" .
  have "send_state (?c\<lparr>send_state := S_close_sent\<rparr>) \<in> {S_close_pending, S_close_sent, S_closed}"
    by simp
  from dropped [OF this]
  have e: "accept_data py_codecs (?c\<lparr>send_state := S_close_sent\<rparr>) (Data (replicate 200 0)) None
       = Some (Inr (?c\<lparr>send_state := S_close_sent\<rparr>))" .
  from st rp sa a acc b feed c e show ?thesis by blast
qed

text \<open>
  While reading is paused the packets are buffered before any debit, so only the
  length of each single packet is tested: two packets of 60 bytes are both buffered
  on a window of 100.
\<close>

lemma paused_overrun:
  "feed_packets py_codecs (opened None 100 {} {} 2097152)
     [(None, replicate 60 0), (None, replicate 60 0)]
   = Some (Inr ((opened None 100 {} {} 2097152)
        \<lparr>recv_buf := [(Data (replicate 60 0), None), (Data (replicate 60 0), None)]\<rparr>))"
  by (simp add: and_then_def recv_defs chan_defs)

section \<open>Window halving (C3)\<close>

text \<open>
  C3, as the specification states it: with \<open>init_recv_window = 100\<close> and reading not
  paused, after the third of four 30-byte \<open>CHANNEL_DATA\<close> packets the channel has
  emitted exactly one \<open>WINDOW_ADJUST\<close>, carrying 90 and restoring the window to 100.
  The code does not do that: after the third packet the only adjustment carries 60 and
  the window stands at 70.
\<close>

theorem window_halving_90_counterexample:
  "observe (\<lambda>c. (window_adjusts (conn_log c), recv_window c))
     (feed_packets py_codecs (reading None 100 {} {} 2097152)
        [(None, replicate 30 0), (None, replicate 30 0), (None, replicate 30 0)])
   \<noteq> Some ([90], 100)"
  by (simp add: observe_def and_then_def recv_defs chan_defs)

text \<open>
  C3, amended: the first packet (cumulative 30) emits no \<open>WINDOW_ADJUST\<close>; the second
  takes the window to 40, below half of 100, so \<open>WINDOW_ADJUST(60)\<close> is emitted and the
  window is back at 100; after the third packet that adjustment of 60 is still the
  only one and the window is 70; the fourth packet emits a second \<open>WINDOW_ADJUST(60)\<close>.
\<close>

theorem window_halving:
  "observe (\<lambda>c. (window_adjusts (conn_log c), recv_window c))
     (feed_packets py_codecs (reading None 100 {} {} 2097152) [(None, replicate 30 0)])
     = Some ([], 70)
   \<and> observe (\<lambda>c. (window_adjusts (conn_log c), recv_window c))
     (feed_packets py_codecs (reading None 100 {} {} 2097152)
        [(None, replicate 30 0), (None, replicate 30 0)])
     = Some ([60], 100)
   \<and> observe (\<lambda>c. (window_adjusts (conn_log c), recv_window c))
     (feed_packets py_codecs (reading None 100 {} {} 2097152)
        [(None, replicate 30 0), (None, replicate 30 0), (None, replicate 30 0)])
     = Some ([60], 70)
   \<and> observe (\<lambda>c. (window_adjusts (conn_log c), recv_window c))
     (feed_packets py_codecs (reading None 100 {} {} 2097152)
        [(None, replicate 30 0), (None, replicate 30 0), (None, replicate 30 0),
         (None, replicate 30 0)])
     = Some ([60, 60], 100)"
  by (simp add: observe_def and_then_def recv_defs chan_defs)

section \<open>Empty data packets (C10)\<close>

text \<open>
  C10: an inbound data packet with an empty payload is ignored. \<open>_accept_data\<close>
  returns the channel as it was, logs of the connection and of the session included, so
  no window is debited, nothing is buffered, no packet is sent and \<open>data_received\<close> is not
  called; on an open channel (and, for extended data, a legal datatype) so do the two
  packet handlers.
\<close>

theorem empty_data_ignored:
  "accept_data cs c (Data []) dt = Some (Inr c)
   \<and> (recv_state c = R_open \<longrightarrow> process_data cs c [] = Some (Inr c))
   \<and> (recv_state c = R_open \<and> t \<in> read_datatypes c
        \<longrightarrow> process_extended_data cs c t [] = Some (Inr c))"
  by (simp add: accept_data_def process_data_def process_extended_data_def)

theorem empty_data_ignored_witness:
  "recv_state (reading None 100 {EXTENDED_DATA_STDERR} {} 2097152) = R_open
   \<and> EXTENDED_DATA_STDERR \<in> read_datatypes (reading None 100 {EXTENDED_DATA_STDERR} {} 2097152)
   \<and> process_data py_codecs (reading None 100 {EXTENDED_DATA_STDERR} {} 2097152) [] =
       Some (Inr (reading None 100 {EXTENDED_DATA_STDERR} {} 2097152))
   \<and> process_extended_data py_codecs (reading None 100 {EXTENDED_DATA_STDERR} {} 2097152)
         EXTENDED_DATA_STDERR [] =
       Some (Inr (reading None 100 {EXTENDED_DATA_STDERR} {} 2097152))"
  using empty_data_ignored [of py_codecs "reading None 100 {EXTENDED_DATA_STDERR} {} 2097152"
      None EXTENDED_DATA_STDERR]
  by (simp add: chan_defs)

section \<open>Abort with buffered data (C2)\<close>

text \<open>
  C2 says that after a write of buffered data and \<open>abort()\<close> no data packet follows
  the \<open>CHANNEL_CLOSE\<close>, also when the peer sends \<open>WINDOW_ADJUST\<close>, and that
  \<open>send_buf_len\<close> is 0. The code of \<open>abort\<close> leaves the buffer as it is. The peer's
  window is 4 and ten bytes are written: four go out, \<open>abort()\<close> sends the one
  \<open>CHANNEL_CLOSE\<close> and \<open>send_buf_len\<close> is 6; a \<open>WINDOW_ADJUST\<close> of 100 then sends the
  six buffered bytes after the close.
\<close>

theorem abort_keeps_buffer:
  "observe (\<lambda>c. (send_buf_len c, send_state c, conn_log c))
     (and_then (write_data py_codecs (opened None 100 {} {} 4) (Raw (replicate 10 7)) None)
        (\<lambda>c1. Some (abort c1)))
     = Some (6, S_close_sent,
             [Send_channel_open_confirmation (Some 0) (Some 1) 100 32768,
              Send_packet 0 (MSG_CHANNEL_DATA (replicate 4 7)),
              Send_packet 0 MSG_CHANNEL_CLOSE])
   \<and> observe (\<lambda>c. (send_buf_len c, send_state c, conn_log c))
     (and_then (write_data py_codecs (opened None 100 {} {} 4) (Raw (replicate 10 7)) None)
        (\<lambda>c1. and_then (Some (abort c1)) (\<lambda>c2. process_window_adjust c2 100)))
     = Some (0, S_close_sent,
             [Send_channel_open_confirmation (Some 0) (Some 1) 100 32768,
              Send_packet 0 (MSG_CHANNEL_DATA (replicate 4 7)),
              Send_packet 0 MSG_CHANNEL_CLOSE,
              Send_packet 0 (MSG_CHANNEL_DATA (replicate 6 7))])"
  by (simp add: observe_def and_then_def write_data_def sdata_len_def encoding_set_def
      buffer_and_flush_def abort_def process_window_adjust_def send_defs flush_loop.simps
      chan_defs)

section \<open>Cleanup with cancelled waiters (C7)\<close>

text \<open>
  C7 says that cleanup completes without raising when waiters were cancelled. Only the
  loop over \<open>close_waiters\<close> tests \<open>cancelled()\<close>: with a cancelled request waiter, or a
  cancelled open waiter, \<open>_cleanup\<close> calls \<open>set_exception\<close> on it and the future
  raises \<open>InvalidStateError\<close>.
\<close>

theorem cleanup_cancelled_waiter_raises:
  "(case make_request (opened None 100 {} {} 4) ''shell'' [] of
      Inl e \<Rightarrow> None
    | Inr (c, f) \<Rightarrow> Some (cleanup (cancel c f) None)) = Some (Inl InvalidStateError)
   \<and> (case open_chan (init_channel None 2097152 32768 1 {} {}) ''session'' of
      Inl e \<Rightarrow> None
    | Inr (c, f) \<Rightarrow> Some (cleanup (cancel c f) None)) = Some (Inl InvalidStateError)"
  by (simp add: make_request_def new_future_def send_packet_def cancel_def cleanup_def
      cleanup_open_waiter_def set_exception_def settle_def open_chan_def chan_defs)

section \<open>Partial code points (C9)\<close>

text \<open>
  The scenario of the specification on regular data: the two bytes of a split snowman
  are kept in \<open>recv_partial\<close>, the next packet completes it and the session receives the
  text in one call; an end of file while the tail is held is a protocol error.
\<close>

lemma split_codepoint:
  "observe (\<lambda>c. (recv_partial c None, session_log c))
     (process_data py_codecs (reading (Some ''utf-8'') 100 {} {} 4) [0xE2, 0x98])
     = Some (Some [0xE2, 0x98], [Connection_made])
   \<and> observe (\<lambda>c. (recv_partial c None, session_log c))
     (feed_packets py_codecs (reading (Some ''utf-8'') 100 {} {} 4)
        [(None, [0xE2, 0x98]), (None, [0x83, 0x78])])
     = Some (None, [Connection_made, Data_received (Str [9731, 120]) None])
   \<and> and_then (process_data py_codecs (reading (Some ''utf-8'') 100 {} {} 4) [0xE2, 0x98])
        (process_eof py_codecs)
     = Some (Inl (DisconnectError ''Unicode decode error''))"
  by (simp add: observe_def and_then_def recv_defs utf8_defs chan_defs)

text \<open>
  C9 says that an end of file delivered while a partial tail is held for any datatype
  is a protocol error. \<open>_deliver_data\<close> looks the tail up under the datatype of the
  end of file, which is always \<open>None\<close>: with the two bytes held for \<open>STDERR\<close>, the end
  of file reaches the session, no error is raised and the tail stays in
  \<open>recv_partial\<close>.
\<close>

theorem eof_ignores_stderr_tail:
  "observe (\<lambda>c. (recv_partial c (Some EXTENDED_DATA_STDERR), session_log c, recv_state c))
     (and_then
        (process_extended_data py_codecs
           (reading (Some ''utf-8'') 100 {EXTENDED_DATA_STDERR} {} 4)
           EXTENDED_DATA_STDERR [0xE2, 0x98])
        (process_eof py_codecs))
     = Some (Some [0xE2, 0x98], [Connection_made, Eof_received], R_eof_received)"
  by (simp add: observe_def and_then_def recv_defs utf8_defs chan_defs EXTENDED_DATA_STDERR_def)

section \<open>Outbound data stays within the window (C4)\<close>

text \<open>
  C4: every data packet of the send path is emitted by one iteration of the loop of
  \<open>_flush_send_buf\<close>. With a window and a packet size that are not negative, the
  iteration sends a prefix of the head chunk, as \<open>CHANNEL_DATA\<close> or
  \<open>CHANNEL_EXTENDED_DATA\<close> by its datatype, of at most
  \<open>min(send_pktsize, send_window)\<close> bytes, and takes its length off both
  \<open>send_window\<close> and \<open>send_buf_len\<close>.
\<close>

theorem flush_step_within_window:
  assumes "can_send c" and "send_window c = Some w" and "0 \<le> w"
    and "send_pktsize c = Some p" and "0 \<le> p" and "flush_step c = Inr c'"
  shows "\<exists>n data. data = take (length data) (fst (hd (send_buf c)))
           \<and> conn_log c' = conn_log c @
                [Send_packet n (case snd (hd (send_buf c)) of
                                  None \<Rightarrow> MSG_CHANNEL_DATA data
                                | Some t \<Rightarrow> MSG_CHANNEL_EXTENDED_DATA t data)]
           \<and> int (length data) \<le> min p w
           \<and> send_window c' = Some (w - int (length data))
           \<and> send_buf_len c' = send_buf_len c - int (length data)"
proof -
  from assms(1) obtain buf dt rest where sb: "send_buf c = (buf, dt) # rest"
    by (cases "send_buf c") (auto simp: can_send_def)
  define data where "data = (if int (length buf) > min w p then py_take (min w p) buf else buf)"
  have len: "int (length data) \<le> min p w"
    using assms(3,5) by (auto simp: data_def py_take_def)
  have pre: "data = take (length data) buf"
    using assms(3,5) by (auto simp: data_def py_take_def)
  from assms(6) sb assms(2,4) obtain n where n: "send_chan c = Some n"
    by (auto simp: flush_step_def send_packet_def Let_def split: option.splits)
  from assms(6) sb assms(2,4) n have
    "conn_log c' = conn_log c @ [Send_packet n (case dt of None \<Rightarrow> MSG_CHANNEL_DATA data
                                | Some t \<Rightarrow> MSG_CHANNEL_EXTENDED_DATA t data)]"
    "send_window c' = Some (w - int (length data))"
    "send_buf_len c' = send_buf_len c - int (length data)"
    by (auto simp: flush_step_def send_packet_def Let_def data_def split: if_splits option.splits)
  with len pre sb show ?thesis by auto
qed

text \<open>The iteration on ten buffered bytes and a window of four.\<close>

theorem flush_step_within_window_witness:
  "can_send ((opened None 100 {} {} 4)\<lparr>send_buf := [(replicate 10 7, None)], send_buf_len := 10\<rparr>)
   \<and> (\<exists>n data. conn_log ((opened None 100 {} {} 4)
          \<lparr>send_buf := [(replicate 6 7, None)], send_buf_len := 6, send_window := Some 0,
           conn_log := [Send_channel_open_confirmation (Some 0) (Some 1) 100 32768,
                        Send_packet 0 (MSG_CHANNEL_DATA (replicate 4 7))]\<rparr>)
        = [Send_channel_open_confirmation (Some 0) (Some 1) 100 32768] @
                [Send_packet n (MSG_CHANNEL_DATA data)]
        \<and> int (length data) \<le> 4)"
proof -
  let ?c = "(opened None 100 {} {} 4)\<lparr>send_buf := [(replicate 10 7, None)], send_buf_len := 10\<rparr>"
  let ?c' = "(opened None 100 {} {} 4)
          \<lparr>send_buf := [(replicate 6 7, None)], send_buf_len := 6, send_window := Some 0,
           conn_log := [Send_channel_open_confirmation (Some 0) (Some 1) 100 32768,
                        Send_packet 0 (MSG_CHANNEL_DATA (replicate 4 7))]\<rparr>"
  have a: "can_send ?c" by (simp add: can_send_def chan_defs)
  have b: "send_window ?c = Some 4" by (simp add: chan_defs)
  have c: "send_pktsize ?c = Some 32768" by (simp add: chan_defs)
  have d: "flush_step ?c = Inr ?c'" by (simp add: send_defs chan_defs)
  from flush_step_within_window [OF a b _ c _ d] a show ?thesis
    by (simp add: chan_defs)
qed

section \<open>Waiting for the close (C6)\<close>

text \<open>The loops of \<open>_cleanup\<close> over the futures.\<close>

text \<open>A run of \<open>set_exception\<close> calls changes only pending futures, and never cancels.\<close>

lemma fail_waiters_frame:
  "fail_waiters c ws e = Inr c' \<Longrightarrow>
     \<exists>fs. c' = c\<lparr>futures := fs\<rparr> \<and> length fs = length (futures c)
        \<and> (\<forall>g. futures c ! g \<noteq> Cancelled \<longrightarrow> g < length fs \<longrightarrow> fs ! g \<noteq> Cancelled)"
proof (induction ws arbitrary: c)
  case Nil
  then have "c' = c\<lparr>futures := futures c\<rparr>" by simp
  then show ?case by blast
next
  case (Cons w ws)
  from Cons.prems obtain c1 where s: "set_exception c w e = Inr c1"
    and r: "fail_waiters c1 ws e = Inr c'"
    by (auto split: sum.splits)
  from s have c1: "c1 = c\<lparr>futures := (futures c)[w := Has_exception e]\<rparr>"
    by (auto simp: set_exception_def dest: settle_frame)
  from Cons.IH [OF r] obtain fs where fs: "c' = c1\<lparr>futures := fs\<rparr>"
    "length fs = length (futures c1)"
    "\<forall>g. futures c1 ! g \<noteq> Cancelled \<longrightarrow> g < length fs \<longrightarrow> fs ! g \<noteq> Cancelled"
    by blast
  from fs(1) c1 have "c' = c\<lparr>futures := fs\<rparr>" by simp
  moreover from fs(2) c1 have "length fs = length (futures c)" by simp
  moreover have "\<forall>g. futures c ! g \<noteq> Cancelled \<longrightarrow> g < length fs \<longrightarrow> fs ! g \<noteq> Cancelled"
  proof (intro allI impI)
    fix g assume g: "futures c ! g \<noteq> Cancelled" "g < length fs"
    with c1 fs(2) have "futures c1 ! g \<noteq> Cancelled"
      by (cases "g = w") simp_all
    with fs(3) g(2) show "fs ! g \<noteq> Cancelled" by blast
  qed
  ultimately show ?case by blast
qed

lemma resolve_waiters_frame:
  "resolve_waiters c ws = Inr c' \<Longrightarrow> \<exists>fs. c' = c\<lparr>futures := fs\<rparr>"
proof (induction ws arbitrary: c)
  case Nil
  then have "c' = c\<lparr>futures := futures c\<rparr>" by simp
  then show ?case by blast
next
  case (Cons w ws)
  show ?case
  proof (cases "cancelled c w")
    case True
    with Cons.prems have "resolve_waiters c ws = Inr c'" by simp
    from Cons.IH [OF this] show ?thesis .
  next
    case False
    with Cons.prems obtain c1 where s: "set_result c w Res_none = Inr c1"
      and r: "resolve_waiters c1 ws = Inr c'"
      by (auto split: sum.splits)
    from s have c1: "c1 = c\<lparr>futures := (futures c)[w := Has_result Res_none]\<rparr>"
      by (auto simp: set_result_def dest: settle_frame)
    from Cons.IH [OF r] obtain fs where "c' = c1\<lparr>futures := fs\<rparr>" by blast
    with c1 have "c' = c\<lparr>futures := fs\<rparr>" by simp
    then show ?thesis by blast
  qed
qed

text \<open>A future that already has a result keeps it through the loop over the close waiters.\<close>

lemma resolve_waiters_keeps:
  "resolve_waiters c ws = Inr c' \<Longrightarrow> g < length (futures c) \<Longrightarrow> futures c ! g = Has_result v
     \<Longrightarrow> futures c' ! g = Has_result v"
proof (induction ws arbitrary: c)
  case Nil
  then show ?case by simp
next
  case (Cons w ws)
  show ?case
  proof (cases "cancelled c w")
    case True
    with Cons.prems have "resolve_waiters c ws = Inr c'" by simp
    from Cons.IH [OF this Cons.prems(2,3)] show ?thesis .
  next
    case False
    with Cons.prems obtain c1 where s: "set_result c w Res_none = Inr c1"
      and r: "resolve_waiters c1 ws = Inr c'"
      by (auto split: sum.splits)
    from s have c1: "c1 = c\<lparr>futures := (futures c)[w := Has_result Res_none]\<rparr>"
      and w: "futures c ! w = Pending"
      by (auto simp: set_result_def dest: settle_frame)
    from w Cons.prems(3) have "g \<noteq> w" by auto
    with c1 Cons.prems(2,3) have "g < length (futures c1)" "futures c1 ! g = Has_result v"
      by simp_all
    from Cons.IH [OF r this] show ?thesis .
  qed
qed

text \<open>Every waiter of the list that is not cancelled gets the result \<open>None\<close>.\<close>

lemma resolve_waiters_resolves:
  "resolve_waiters c ws = Inr c' \<Longrightarrow> f \<in> set ws \<Longrightarrow> futures c ! f \<noteq> Cancelled
     \<Longrightarrow> futures c' ! f = Has_result Res_none"
proof (induction ws arbitrary: c)
  case Nil
  then show ?case by simp
next
  case (Cons w ws)
  show ?case
  proof (cases "cancelled c w")
    case True
    with Cons.prems have r: "resolve_waiters c ws = Inr c'" by simp
    from True Cons.prems(3) have "f \<noteq> w" by (auto simp: cancelled_def)
    with Cons.prems(2) have "f \<in> set ws" by simp
    from Cons.IH [OF r this Cons.prems(3)] show ?thesis .
  next
    case False
    with Cons.prems obtain c1 where s: "set_result c w Res_none = Inr c1"
      and r: "resolve_waiters c1 ws = Inr c'"
      by (auto split: sum.splits)
    from s have c1: "c1 = c\<lparr>futures := (futures c)[w := Has_result Res_none]\<rparr>"
      and w: "w < length (futures c)"
      by (auto simp: set_result_def dest: settle_frame)
    show ?thesis
    proof (cases "f = w")
      case True
      with c1 w have "f < length (futures c1)" "futures c1 ! f = Has_result Res_none"
        by simp_all
      from resolve_waiters_keeps [OF r this] show ?thesis .
    next
      case False
      with Cons.prems(2) have m: "f \<in> set ws" by simp
      from False c1 Cons.prems(3) have "futures c1 ! f \<noteq> Cancelled" by simp
      from Cons.IH [OF r m this] show ?thesis .
    qed
  qed
qed


lemma cleanup_open_waiter_frame:
  "cleanup_open_waiter c = Inr c' \<Longrightarrow>
     \<exists>fs ow. c' = c\<lparr>futures := fs, open_waiter := ow\<rparr> \<and> length fs = length (futures c)
        \<and> (\<forall>g. futures c ! g \<noteq> Cancelled \<longrightarrow> g < length fs \<longrightarrow> fs ! g \<noteq> Cancelled)"
proof (cases "open_waiter c")
  case None
  assume "cleanup_open_waiter c = Inr c'"
  with None have "c' = c\<lparr>futures := futures c, open_waiter := open_waiter c\<rparr>"
    by (simp add: cleanup_open_waiter_def)
  then show ?thesis by blast
next
  case (Some w)
  assume "cleanup_open_waiter c = Inr c'"
  with Some obtain c1 where
    s: "set_exception c w (ChannelOpenError OPEN_CONNECT_FAILED ''SSH connection closed'') = Inr c1"
    and c': "c' = c1\<lparr>open_waiter := None\<rparr>"
    by (auto simp: cleanup_open_waiter_def split: sum.splits)
  let ?fs = "(futures c)[w := Has_exception (ChannelOpenError OPEN_CONNECT_FAILED ''SSH connection closed'')]"
  from s have c1: "c1 = c\<lparr>futures := ?fs\<rparr>" and wl: "w < length (futures c)"
    by (auto simp: set_exception_def dest: settle_frame)
  with c' have "c' = c\<lparr>futures := ?fs, open_waiter := None\<rparr>" by simp
  moreover have "length ?fs = length (futures c)" by simp
  moreover have "\<forall>g. futures c ! g \<noteq> Cancelled \<longrightarrow> g < length ?fs \<longrightarrow> ?fs ! g \<noteq> Cancelled"
    using wl by (auto simp: nth_list_update)
  ultimately show ?thesis by blast
qed

lemma cleanup_rest_simps:
  "futures (cleanup_rest c exc) = futures c" "session (cleanup_rest c exc) = None"
  by (auto simp: cleanup_rest_def Let_def split: option.splits)

text \<open>After a cleanup that returns, every close waiter that was not cancelled has its result.\<close>

lemma cleanup_resolves:
  assumes "cleanup c exc = Inr c'" and "f \<in> set (close_waiters c)"
    and "f < length (futures c)" and "futures c ! f \<noteq> Cancelled"
  shows "futures c' ! f = Has_result Res_none"
proof -
  from assms(1) obtain a b d where a: "cleanup_open_waiter c = Inr a"
    and b: "fail_waiters a (request_waiters a) (Conn_exception exc) = Inr b"
    and d: "resolve_waiters (b\<lparr>request_waiters := []\<rparr>) (close_waiters b) = Inr d"
    and c': "c' = cleanup_rest (d\<lparr>close_waiters := []\<rparr>) exc"
    by (auto simp: cleanup_def split: sum.splits)
  from cleanup_open_waiter_frame [OF a] obtain fsa ow where
    fa: "a = c\<lparr>futures := fsa, open_waiter := ow\<rparr>" "length fsa = length (futures c)"
    "\<forall>g. futures c ! g \<noteq> Cancelled \<longrightarrow> g < length fsa \<longrightarrow> fsa ! g \<noteq> Cancelled"
    by blast
  from fa assms(3,4) have a1: "futures a ! f \<noteq> Cancelled" "f < length (futures a)"
    "close_waiters a = close_waiters c"
    by simp_all
  from fail_waiters_frame [OF b] obtain fsb where
    fb: "b = a\<lparr>futures := fsb\<rparr>" "length fsb = length (futures a)"
    "\<forall>g. futures a ! g \<noteq> Cancelled \<longrightarrow> g < length fsb \<longrightarrow> fsb ! g \<noteq> Cancelled"
    by blast
  from fb a1 have b1: "futures b ! f \<noteq> Cancelled" "close_waiters b = close_waiters c"
    by simp_all
  from b1 assms(2) have
    "f \<in> set (close_waiters b)" "futures (b\<lparr>request_waiters := []\<rparr>) ! f \<noteq> Cancelled"
    by simp_all
  from resolve_waiters_resolves [OF d this] have "futures d ! f = Has_result Res_none" .
  with c' show ?thesis by (simp add: cleanup_rest_simps)
qed

text \<open>
  C6, as the specification states it: \<open>wait_closed()\<close> returns immediately exactly when
  the channel is already closed. The code tests the session, not the states: on the
  channel whose open was just confirmed, which has no session yet, it returns at once
  although both states are open.
\<close>

theorem wait_closed_open_counterexample:
  "wait_closed confirmed = (confirmed, None)
   \<and> send_state confirmed = S_open \<and> recv_state confirmed = R_open"
  by (simp add: wait_closed_def chan_defs)

text \<open>
  C6, amended: \<open>wait_closed()\<close> returns immediately exactly when no session is
  installed, leaving the channel as it was. With a session it appends a new pending
  future to \<open>close_waiters\<close> and suspends the caller on it, and a cleanup that returns
  gives that future its result. After a cleanup that returns, the session is gone and
  \<open>wait_closed()\<close> returns immediately.
\<close>

theorem wait_closed_by_session:
  "(snd (wait_closed c) = None \<longleftrightarrow> session c = None)
   \<and> (session c = None \<longrightarrow> wait_closed c = (c, None))
   \<and> (session c \<noteq> None \<longrightarrow>
        (\<exists>f c1. wait_closed c = (c1, Some f) \<and> futures c1 ! f = Pending
           \<and> close_waiters c1 = close_waiters c @ [f]
           \<and> (\<forall>exc c2. cleanup c1 exc = Inr c2 \<longrightarrow> futures c2 ! f = Has_result Res_none)))
   \<and> (cleanup c exc = Inr c' \<longrightarrow> wait_closed c' = (c', None))"
proof (intro conjI impI)
  show "snd (wait_closed c) = None \<longleftrightarrow> session c = None"
    by (simp add: wait_closed_def new_future_def)
next
  assume "session c = None"
  then show "wait_closed c = (c, None)" by (simp add: wait_closed_def)
next
  assume s: "session c \<noteq> None"
  let ?f = "length (futures c)"
  let ?c1 = "c\<lparr>futures := futures c @ [Pending], close_waiters := close_waiters c @ [?f]\<rparr>"
  from s have w: "wait_closed c = (?c1, Some ?f)"
    by (simp add: wait_closed_def new_future_def)
  have p: "futures ?c1 ! ?f = Pending" by simp
  have cw: "close_waiters ?c1 = close_waiters c @ [?f]" by simp
  have "\<forall>exc c2. cleanup ?c1 exc = Inr c2 \<longrightarrow> futures c2 ! ?f = Has_result Res_none"
  proof (intro allI impI)
    fix exc c2 assume cl: "cleanup ?c1 exc = Inr c2"
    have "?f \<in> set (close_waiters ?c1)" "?f < length (futures ?c1)" "futures ?c1 ! ?f \<noteq> Cancelled"
      by simp_all
    from cleanup_resolves [OF cl this] show "futures c2 ! ?f = Has_result Res_none" .
  qed
  with w p cw show "\<exists>f c1. wait_closed c = (c1, Some f) \<and> futures c1 ! f = Pending
           \<and> close_waiters c1 = close_waiters c @ [f]
           \<and> (\<forall>exc c2. cleanup c1 exc = Inr c2 \<longrightarrow> futures c2 ! f = Has_result Res_none)"
    by blast
next
  assume "cleanup c exc = Inr c'"
  then have "session c' = None"
    by (auto simp: cleanup_def cleanup_rest_simps split: sum.splits)
  then show "wait_closed c' = (c', None)" by (simp add: wait_closed_def)
qed

text \<open>A channel with a session: the waiter, the cleanup that resolves it, and the call after it.\<close>

theorem wait_closed_by_session_witness:
  "session (opened None 100 {} {} 4) \<noteq> None
   \<and> (\<exists>f c1. wait_closed (opened None 100 {} {} 4) = (c1, Some f)
        \<and> (\<exists>c2. cleanup c1 None = Inr c2 \<and> futures c2 ! f = Has_result Res_none
              \<and> wait_closed c2 = (c2, None)))"
proof -
  let ?c = "opened None 100 {} {} 4"
  have s: "session ?c \<noteq> None" by (simp add: chan_defs)
  from wait_closed_by_session [of ?c] s obtain f c1 where
    w: "wait_closed ?c = (c1, Some f)"
    and r: "\<forall>exc c2. cleanup c1 exc = Inr c2 \<longrightarrow> futures c2 ! f = Has_result Res_none"
    by blast
  from w have "c1 = ?c\<lparr>futures := [Pending], close_waiters := [0]\<rparr>"
    by (simp add: wait_closed_def new_future_def chan_defs)
  then obtain c2 where cl: "cleanup c1 None = Inr c2"
    by (simp add: cleanup_def cleanup_open_waiter_def cancelled_def set_result_def settle_def chan_defs)
  from r cl have "futures c2 ! f = Has_result Res_none" by blast
  moreover from wait_closed_by_session [of c1 None c2] cl have "wait_closed c2 = (c2, None)"
    by blast
  ultimately show ?thesis using s w cl by blast
qed

section \<open>Requests are answered in order (C5)\<close>

lemma make_request_frame:
  "make_request c r a = Inr (c1, f) \<Longrightarrow>
     f = length (futures c) \<and> futures c1 = futures c @ [Pending]
     \<and> request_waiters c1 = request_waiters c @ [f]"
  by (auto simp: make_request_def new_future_def send_packet_def Let_def split: option.splits if_splits sum.splits)

lemma process_response_frame:
  assumes "process_response c b = Inr c1"
  shows "\<exists>w rest. request_waiters c = w # rest \<and> request_waiters c1 = rest
           \<and> (cancelled c w \<and> futures c1 = futures c
               \<or> w < length (futures c) \<and> futures c ! w = Pending
                 \<and> futures c1 = (futures c)[w := Has_result (Res_bool b)])"
proof -
  from assms obtain w rest where q: "request_waiters c = w # rest"
    by (cases "request_waiters c") (auto simp: process_response_def split: if_splits)
  show ?thesis
  proof (cases "cancelled c w")
    case True
    with assms q have "c1 = c\<lparr>request_waiters := rest\<rparr>"
      by (auto simp: process_response_def cancelled_def split: if_splits)
    with True q show ?thesis by simp
  next
    case False
    with assms q have "settle (c\<lparr>request_waiters := rest\<rparr>) w (Has_result (Res_bool b)) = Inr c1"
      by (auto simp: process_response_def cancelled_def set_result_def split: if_splits)
    from settle_frame [OF this] q show ?thesis by simp
  qed
qed

text \<open>
  The invariant of a run: the futures issued, behind those already queued, are
  completed from the front by the responses, and a completed future is not touched
  again.
\<close>

lemma run_requests_fifo:
  assumes "run_requests c evs = Inr (c', issued)"
    and "distinct (request_waiters c)"
    and "\<forall>f \<in> set (request_waiters c). f < length (futures c) \<and> futures c ! f = Pending"
  shows "length (futures c) \<le> length (futures c')
     \<and> (\<forall>g < length (futures c). futures c ! g \<noteq> Pending \<longrightarrow> futures c' ! g = futures c ! g)
     \<and> (\<forall>i < length (responses evs). i < length (request_waiters c @ issued)
           \<and> futures c' ! ((request_waiters c @ issued) ! i)
               = Has_result (Res_bool (responses evs ! i)))
     \<and> request_waiters c' = drop (length (responses evs)) (request_waiters c @ issued)"
  using assms
proof (induction evs arbitrary: c issued)
  case Nil
  then show ?case by simp
next
  case (Cons ev evs)
  show ?case
  proof (cases ev)
    case (Request r a)
    with Cons.prems(1) obtain c1 f fs where m: "make_request c r a = Inr (c1, f)"
      and r: "run_requests c1 evs = Inr (c', fs)" and iss: "issued = f # fs"
      by (auto split: sum.splits)
    from make_request_frame [OF m] have f: "f = length (futures c)"
      and fu: "futures c1 = futures c @ [Pending]"
      and q1: "request_waiters c1 = request_waiters c @ [f]"
      by simp_all
    from Cons.prems(2,3) f q1 have d1: "distinct (request_waiters c1)" by auto
    from Cons.prems(3) f q1 fu have
      p1: "\<forall>f \<in> set (request_waiters c1). f < length (futures c1) \<and> futures c1 ! f = Pending"
      by (auto simp: nth_append)
    from Cons.IH [OF r d1 p1] have ih:
      "length (futures c1) \<le> length (futures c')"
      "\<forall>g < length (futures c1). futures c1 ! g \<noteq> Pending \<longrightarrow> futures c' ! g = futures c1 ! g"
      "\<forall>i < length (responses evs). i < length (request_waiters c1 @ fs)
           \<and> futures c' ! ((request_waiters c1 @ fs) ! i) = Has_result (Res_bool (responses evs ! i))"
      "request_waiters c' = drop (length (responses evs)) (request_waiters c1 @ fs)"
      by simp_all
    have e: "request_waiters c1 @ fs = request_waiters c @ issued"
      using q1 iss by simp
    from ih(1) fu have "length (futures c) \<le> length (futures c')" by simp
    moreover have "\<forall>g < length (futures c). futures c ! g \<noteq> Pending \<longrightarrow> futures c' ! g = futures c ! g"
      using ih(2) fu by (auto simp: nth_append)
    moreover note ih(3) [unfolded e] ih(4) [unfolded e]
    ultimately show ?thesis using Request by simp
  next
    case (Response b)
    with Cons.prems(1) obtain c1 where p: "process_response c b = Inr c1"
      and r: "run_requests c1 evs = Inr (c', issued)"
      by (auto split: sum.splits)
    from process_response_frame [OF p] obtain w rest where
      q: "request_waiters c = w # rest" and q1: "request_waiters c1 = rest"
      and alt: "cancelled c w \<and> futures c1 = futures c
               \<or> w < length (futures c) \<and> futures c ! w = Pending
                 \<and> futures c1 = (futures c)[w := Has_result (Res_bool b)]"
      by blast
    from Cons.prems(3) q have "futures c ! w = Pending" by simp
    with alt have wl: "w < length (futures c)"
      and fu: "futures c1 = (futures c)[w := Has_result (Res_bool b)]"
      by (auto simp: cancelled_def)
    from Cons.prems(2) q q1 have d1: "distinct (request_waiters c1)" and wn: "w \<notin> set rest"
      by simp_all
    from Cons.prems(3) q q1 fu wn have
      p1: "\<forall>f \<in> set (request_waiters c1). f < length (futures c1) \<and> futures c1 ! f = Pending"
      by (auto simp: nth_list_update)
    from Cons.IH [OF r d1 p1] have ih:
      "length (futures c1) \<le> length (futures c')"
      "\<forall>g < length (futures c1). futures c1 ! g \<noteq> Pending \<longrightarrow> futures c' ! g = futures c1 ! g"
      "\<forall>i < length (responses evs). i < length (rest @ issued)
           \<and> futures c' ! ((rest @ issued) ! i) = Has_result (Res_bool (responses evs ! i))"
      "request_waiters c' = drop (length (responses evs)) (rest @ issued)"
      by (simp_all add: q1)
    from ih(1) fu have a: "length (futures c) \<le> length (futures c')" by simp
    have b: "\<forall>g < length (futures c). futures c ! g \<noteq> Pending \<longrightarrow> futures c' ! g = futures c ! g"
    proof (intro allI impI)
      fix g assume g: "g < length (futures c)" "futures c ! g \<noteq> Pending"
      with \<open>futures c ! w = Pending\<close> have "g \<noteq> w" by auto
      with g fu have "g < length (futures c1)" "futures c1 ! g = futures c ! g" by simp_all
      with ih(2) g(2) show "futures c' ! g = futures c ! g" by simp
    qed
    from wl fu have "w < length (futures c1)" "futures c1 ! w = Has_result (Res_bool b)"
      by simp_all
    with ih(2) have hw: "futures c' ! w = Has_result (Res_bool b)" by simp
    have c: "\<forall>i < length (responses (ev # evs)). i < length (request_waiters c @ issued)
           \<and> futures c' ! ((request_waiters c @ issued) ! i)
               = Has_result (Res_bool (responses (ev # evs) ! i))"
    proof (intro allI impI)
      fix i assume i: "i < length (responses (ev # evs))"
      show "i < length (request_waiters c @ issued)
           \<and> futures c' ! ((request_waiters c @ issued) ! i)
               = Has_result (Res_bool (responses (ev # evs) ! i))"
      proof (cases i)
        case 0
        with q hw Response show ?thesis by simp
      next
        case (Suc j)
        with i Response have "j < length (responses evs)" by simp
        with ih(3) Suc q Response show ?thesis by simp
      qed
    qed
    have d: "request_waiters c' = drop (length (responses (ev # evs))) (request_waiters c @ issued)"
      using ih(4) q Response by simp
    from a b c d show ?thesis by blast
  qed
qed

text \<open>
  C5: requests are issued by \<open>make_request\<close> and answered by \<open>CHANNEL_SUCCESS\<close> and
  \<open>CHANNEL_FAILURE\<close> in any interleaving that the handlers accept, starting with no
  request pending. The \<open>i\<close>-th response completes the future of the \<open>i\<close>-th request
  issued, with \<open>True\<close> for success and \<open>False\<close> for failure. A response that finds no
  pending request on a channel open for responses is a protocol error.
\<close>

theorem responses_fifo:
  "(request_waiters c = [] \<and> run_requests c evs = Inr (c', issued) \<and> i < length (responses evs)
      \<longrightarrow> i < length issued
          \<and> futures c' ! (issued ! i) = Has_result (Res_bool (responses evs ! i)))
   \<and> (request_waiters c = []
        \<and> send_state c \<in> {S_open, S_eof_pending, S_eof_sent, S_close_pending, S_close_sent}
      \<longrightarrow> process_response c b = Inl (DisconnectError ''Unexpected channel response''))"
proof -
  have fifo: "i < length issued
      \<and> futures c' ! (issued ! i) = Has_result (Res_bool (responses evs ! i))"
    if q: "request_waiters c = []" and r: "run_requests c evs = Inr (c', issued)"
      and i: "i < length (responses evs)"
  proof -
    from q have "distinct (request_waiters c)"
      "\<forall>f \<in> set (request_waiters c). f < length (futures c) \<and> futures c ! f = Pending"
      by simp_all
    from run_requests_fifo [OF r this] have
      "\<forall>i < length (responses evs). i < length (request_waiters c @ issued)
           \<and> futures c' ! ((request_waiters c @ issued) ! i)
               = Has_result (Res_bool (responses evs ! i))"
      by blast
    with i q show ?thesis by simp
  qed
  have unmatched: "process_response c b = Inl (DisconnectError ''Unexpected channel response'')"
    if "request_waiters c = []"
      and "send_state c \<in> {S_open, S_eof_pending, S_eof_sent, S_close_pending, S_close_sent}"
    using that by (auto simp: process_response_def)
  from fifo unmatched show ?thesis by blast
qed

text \<open>Two requests in flight, answered with a failure and then a success.\<close>

lemma run_example:
  "run_requests (opened None 100 {} {} 4)
     [Request ''pty-req'' [], Request ''shell'' [], Response False, Response True]
   = Inr ((opened None 100 {} {} 4)
        \<lparr>futures := [Has_result (Res_bool False), Has_result (Res_bool True)],
         conn_log := [Send_channel_open_confirmation (Some 0) (Some 1) 100 32768,
                      Send_packet 0 (MSG_CHANNEL_REQUEST ''pty-req'' True []),
                      Send_packet 0 (MSG_CHANNEL_REQUEST ''shell'' True [])]\<rparr>, [0, 1])"
  by (simp add: make_request_def new_future_def send_packet_def process_response_def cancelled_def
      set_result_def settle_def chan_defs)

theorem responses_fifo_witness:
  "request_waiters (opened None 100 {} {} 4) = []
   \<and> send_state (opened None 100 {} {} 4) = S_open
   \<and> (\<exists>c'. run_requests (opened None 100 {} {} 4)
        [Request ''pty-req'' [], Request ''shell'' [], Response False, Response True] = Inr (c', [0, 1])
        \<and> futures c' ! 0 = Has_result (Res_bool False) \<and> futures c' ! 1 = Has_result (Res_bool True))
   \<and> process_response (opened None 100 {} {} 4) True
        = Inl (DisconnectError ''Unexpected channel response'')"
proof -
  let ?c = "opened None 100 {} {} 4"
  let ?evs = "[Request ''pty-req'' [], Request ''shell'' [], Response False, Response True]"
  have q: "request_waiters ?c = []" and st: "send_state ?c = S_open" by (simp_all add: chan_defs)
  from run_example obtain c' where r: "run_requests ?c ?evs = Inr (c', [0, 1])" by blast
  from responses_fifo [of ?c ?evs c' "[0, 1]" 0] q r
  have f0: "futures c' ! 0 = Has_result (Res_bool False)" by simp
  from responses_fifo [of ?c ?evs c' "[0, 1]" 1] q r
  have f1: "futures c' ! 1 = Has_result (Res_bool True)" by simp
  from responses_fifo [of ?c ?evs c' "[0, 1]" 0 True] q st
  have "process_response ?c True = Inl (DisconnectError ''Unexpected channel response'')" by simp
  with q st r f0 f1 show ?thesis by blast
qed

section \<open>Closing is idempotent (C8)\<close>

text \<open>The two branches of an iteration, for a window and a packet size above zero.\<close>

lemma flush_step_split:
  assumes sb: "send_buf c = (buf, dt) # rest" and w: "send_window c = Some w" "0 < w"
    and p: "send_pktsize c = Some p" "0 < p" and n: "send_chan c = Some n" and cn: "conn c"
    and T: "int (length buf) > min w p"
  shows "flush_step c = Inr (c\<lparr>send_buf := (drop (nat (min w p)) buf, dt) # rest,
                 send_buf_len := send_buf_len c - int (length (take (nat (min w p)) buf)),
                 send_window := Some (w - int (length (take (nat (min w p)) buf))),
                 conn_log := conn_log c @
                   [Send_packet n (case dt of None \<Rightarrow> MSG_CHANNEL_DATA (take (nat (min w p)) buf)
                      | Some t \<Rightarrow> MSG_CHANNEL_EXTENDED_DATA t (take (nat (min w p)) buf))]\<rparr>)"
proof -
  from w p have pk: "0 \<le> min w p" by simp
  have tk: "py_take (min w p) buf = take (nat (min w p)) buf"
    and dr: "py_drop (min w p) buf = drop (nat (min w p)) buf"
    using pk by (simp_all only: py_take_def py_drop_def if_True)
  show ?thesis
    apply (simp only: flush_step_def sb list.case prod.case w(1) p(1) option.case Let_def)
    apply (simp only: T if_True tk dr)
    apply (simp add: send_packet_def n cn)
    done
qed

lemma flush_step_whole:
  assumes sb: "send_buf c = (buf, dt) # rest" and w: "send_window c = Some w"
    and p: "send_pktsize c = Some p" and n: "send_chan c = Some n" and cn: "conn c"
    and F: "\<not> int (length buf) > min w p"
  shows "flush_step c = Inr (c\<lparr>send_buf := rest,
                 send_buf_len := send_buf_len c - int (length buf),
                 send_window := Some (w - int (length buf)),
                 conn_log := conn_log c @
                   [Send_packet n (case dt of None \<Rightarrow> MSG_CHANNEL_DATA buf
                      | Some t \<Rightarrow> MSG_CHANNEL_EXTENDED_DATA t buf)]\<rparr>)"
  apply (simp only: flush_step_def sb list.case prod.case w p option.case Let_def)
  apply (simp only: F if_False)
  apply (simp add: send_packet_def n cn)
  done

lemma closes_data [simp]:
  "closes (c\<lparr>conn_log := conn_log c @
       [Send_packet n (case dt of None \<Rightarrow> MSG_CHANNEL_DATA d | Some t \<Rightarrow> MSG_CHANNEL_EXTENDED_DATA t d)]\<rparr>)
     = closes c"
  by (cases dt) (simp_all add: closes_def)

text \<open>On a ready channel an iteration returns, stays ready and shortens the backlog.\<close>

lemma flush_step_ready:
  assumes "ready c" and "can_send c"
  shows "\<exists>c1. flush_step c = Inr c1 \<and> ready c1 \<and> recv_state c1 = recv_state c
           \<and> backlog c1 < backlog c"
proof -
  from assms(2) obtain buf dt rest where sb: "send_buf c = (buf, dt) # rest"
    by (cases "send_buf c") (auto simp: can_send_def)
  from assms obtain w p n where w: "send_window c = Some w" "0 < w"
    and p: "send_pktsize c = Some p" "0 < p" and n: "send_chan c = Some n" and cn: "conn c"
    by (auto simp: ready_def can_send_def split: option.splits)
  from assms(1) obtain s where se: "session c = Some s" by (auto simp: ready_def)
  show ?thesis
  proof (cases "int (length buf) > min w p")
    case True
    note s = flush_step_split [OF sb w p n cn True]
    have "length (take (nat (min w p)) buf) \<le> nat (min w p)" by simp
    with w(2) p(2) have le: "int (length (take (nat (min w p)) buf)) \<le> w" by linarith
    from w(2) p(2) have pk: "0 \<le> min w p" by simp
    define k where "k = nat (min w p)"
    from w(2) p(2) have "0 < k" by (simp add: k_def)
    moreover from True have "k < length buf" by (simp only: k_def nat_less_iff [OF pk])
    ultimately have "length (drop k buf) < length buf" by simp
    then have "length (drop (nat (min w p)) buf) < length buf" by (simp only: k_def)
    then have b: "backlog (c\<lparr>send_buf := (drop (nat (min w p)) buf, dt) # rest\<rparr>) < backlog c"
      by (simp add: backlog_def sb)
    show ?thesis
      apply (rule exI, rule conjI, rule s)
      using le p cn n se b apply (simp add: ready_def backlog_def)
      done
  next
    case False
    note s = flush_step_whole [OF sb w(1) p(1) n cn False]
    from False w(2) p(2) have le: "int (length buf) \<le> w" by linarith
    have b: "backlog (c\<lparr>send_buf := rest\<rparr>) < backlog c"
      by (simp add: backlog_def sb)
    show ?thesis
      apply (rule exI, rule conjI, rule s)
      using le p cn n se b apply (simp add: ready_def backlog_def)
      done
  qed
qed

lemma flush_step_frame:
  assumes "flush_step c = Inr c1"
  shows "send_state c1 = send_state c \<and> closes c1 = closes c"
proof (cases "send_buf c")
  case Nil
  with assms show ?thesis by (simp add: flush_step_def)
next
  case (Cons x rest)
  obtain buf dt where x: "x = (buf, dt)" by (cases x)
  from assms Cons x show ?thesis
    by (auto simp: flush_step_def send_packet_def closes_def Let_def
        split: option.splits if_splits)
qed

lemma flush_loop_frame:
  assumes "flush_loop c = Some (Inr c')"
  shows "send_state c' = send_state c \<and> closes c' = closes c \<and> \<not> can_send c'"
proof -
  have "\<forall>c'. r = Inr c' \<longrightarrow>
          send_state c' = send_state c \<and> closes c' = closes c \<and> \<not> can_send c'"
    if "flush_loop c = Some r" for r
  proof (rule flush_loop.raw_induct
      [where P = "\<lambda>c r. \<forall>c'. r = Inr c' \<longrightarrow>
          send_state c' = send_state c \<and> closes c' = closes c \<and> \<not> can_send c'", OF _ that])
    fix loop :: "channel \<Rightarrow> (error + channel) option" and c r
    assume ih: "\<And>x y. loop x = Some y \<Longrightarrow> \<forall>c'. y = Inr c' \<longrightarrow>
          send_state c' = send_state x \<and> closes c' = closes x \<and> \<not> can_send c'"
      and body: "(if can_send c
           then case flush_step c of Inl e \<Rightarrow> Some (Inl e) | Inr c' \<Rightarrow> loop c'
           else Some (Inr c)) = Some r"
    show "\<forall>c'. r = Inr c' \<longrightarrow>
          send_state c' = send_state c \<and> closes c' = closes c \<and> \<not> can_send c'"
    proof (cases "can_send c")
      case False
      with body show ?thesis by auto
    next
      case True
      show ?thesis
      proof (intro allI impI)
        fix c' assume r: "r = Inr c'"
        with True body obtain c1 where s: "flush_step c = Inr c1" and l: "loop c1 = Some r"
          by (auto split: sum.splits)
        from ih [OF l] r flush_step_frame [OF s]
        show "send_state c' = send_state c \<and> closes c' = closes c \<and> \<not> can_send c'"
          by simp
      qed
    qed
  qed
  with assms show ?thesis by blast
qed


text \<open>So the loop of \<open>_flush_send_buf\<close> ends on a ready channel.\<close>

lemma flush_loop_returns:
  "ready c \<Longrightarrow> \<exists>c'. flush_loop c = Some (Inr c') \<and> ready c' \<and> recv_state c' = recv_state c"
proof (induction "backlog c" arbitrary: c rule: less_induct)
  case less
  show ?case
  proof (cases "can_send c")
    case False
    with less.prems show ?thesis by (subst flush_loop.simps) simp
  next
    case True
    from flush_step_ready [OF less.prems True] obtain c1 where
      s: "flush_step c = Inr c1" and r: "ready c1" and rs: "recv_state c1 = recv_state c"
      and b: "backlog c1 < backlog c"
      by blast
    from less.hyps [OF b r] obtain c' where
      "flush_loop c1 = Some (Inr c')" "ready c'" "recv_state c' = recv_state c1"
      by blast
    with True s rs show ?thesis by (subst flush_loop.simps) simp
  qed
qed

lemma pause_resume_ready:
  assumes "ready c"
  shows "\<exists>sp l. pause_resume_writing c = Inr (c\<lparr>send_paused := sp, session_log := l\<rparr>)"
proof -
  from assms obtain s where s: "session c = Some s" by (auto simp: ready_def)
  have resume: "pause_resume_writing c
        = Inr (c\<lparr>send_paused := False, session_log := session_log c @ [Resume_writing]\<rparr>)"
    if "send_paused c" "send_buf_len c \<le> send_low_water c"
    using that s by (simp add: pause_resume_writing_def call_session_def)
  have pause: "pause_resume_writing c
        = Inr (c\<lparr>send_paused := True, session_log := session_log c @ [Pause_writing]\<rparr>)"
    if "\<not> send_paused c" "send_buf_len c > send_high_water c"
    using that s by (simp add: pause_resume_writing_def call_session_def)
  have none: "pause_resume_writing c
        = Inr (c\<lparr>send_paused := send_paused c, session_log := session_log c\<rparr>)"
    if "\<not> (send_paused c \<and> send_buf_len c \<le> send_low_water c)"
      "\<not> (\<not> send_paused c \<and> send_buf_len c > send_high_water c)"
    using that by (auto simp: pause_resume_writing_def)
  show ?thesis
  proof (cases "send_paused c \<and> send_buf_len c \<le> send_low_water c")
    case True
    with resume show ?thesis by blast
  next
    case F1: False
    show ?thesis
    proof (cases "\<not> send_paused c \<and> send_buf_len c > send_high_water c")
      case True
      with pause show ?thesis by blast
    next
      case False
      from none [OF F1 False] show ?thesis by blast
    qed
  qed
qed

lemma flush_tail_ready:
  assumes "ready c"
  shows "\<exists>c'. flush_tail c = Inr c' \<and> ready c' \<and> recv_state c' = recv_state c"
proof -
  from pause_resume_ready [OF assms] obtain sp l where
    p: "pause_resume_writing c = Inr (c\<lparr>send_paused := sp, session_log := l\<rparr>)"
    by blast
  let ?c1 = "c\<lparr>send_paused := sp, session_log := l\<rparr>"
  from assms have r1: "ready ?c1" by (simp add: ready_def)
  from assms obtain n where n: "send_chan c = Some n" and cn: "conn c"
    by (auto simp: ready_def)
  consider (eof) "send_buf c = []" "send_state c = S_eof_pending"
    | (close) "send_buf c = []" "send_state c = S_close_pending"
    | (other) "send_buf c \<noteq> [] \<or> (send_state c \<noteq> S_eof_pending \<and> send_state c \<noteq> S_close_pending)"
    by blast
  then show ?thesis
  proof cases
    case eof
    with p n cn have "flush_tail c
        = Inr (?c1\<lparr>conn_log := conn_log c @ [Send_packet n MSG_CHANNEL_EOF],
                    send_state := S_eof_sent\<rparr>)"
      by (simp add: flush_tail_def send_packet_def)
    moreover from assms have "ready (?c1\<lparr>conn_log := conn_log c @ [Send_packet n MSG_CHANNEL_EOF],
                    send_state := S_eof_sent\<rparr>)"
      by (simp add: ready_def)
    ultimately show ?thesis by simp
  next
    case close
    with p n cn have "flush_tail c
        = Inr (?c1\<lparr>conn_log := conn_log c @ [Send_packet n MSG_CHANNEL_CLOSE],
                    send_state := S_close_sent\<rparr>)"
      by (simp add: flush_tail_def send_packet_def)
    moreover from assms have "ready (?c1\<lparr>conn_log := conn_log c @ [Send_packet n MSG_CHANNEL_CLOSE],
                    send_state := S_close_sent\<rparr>)"
      by (simp add: ready_def)
    ultimately show ?thesis by simp
  next
    case other
    with p have "flush_tail c = Inr ?c1"
      by (auto simp: flush_tail_def)
    with r1 show ?thesis by simp
  qed
qed

lemma flush_send_buf_returns:
  assumes "ready c"
  shows "\<exists>c'. flush_send_buf c = Some (Inr c') \<and> ready c' \<and> recv_state c' = recv_state c"
proof -
  from flush_loop_returns [OF assms] obtain c1 where
    l: "flush_loop c = Some (Inr c1)" and r1: "ready c1" and rs1: "recv_state c1 = recv_state c"
    by blast
  from flush_tail_ready [OF r1] obtain c' where
    "flush_tail c1 = Inr c'" "ready c'" "recv_state c' = recv_state c1"
    by blast
  with l rs1 show ?thesis by (simp add: flush_send_buf_def)
qed



lemma pause_resume_frame:
  assumes "pause_resume_writing c = Inr c1"
  shows "\<exists>sp l. c1 = c\<lparr>send_paused := sp, session_log := l\<rparr>"
proof -
  have same: ?thesis if "c1 = c"
  proof -
    from that have "c1 = c\<lparr>send_paused := send_paused c, session_log := session_log c\<rparr>"
      by simp
    then show ?thesis by blast
  qed
  have call: ?thesis if "call_session (c\<lparr>send_paused := sp\<rparr>) k = Inr c1" for sp k
  proof -
    from call_session_frame [OF that] obtain l where
      "c1 = c\<lparr>send_paused := sp\<rparr>\<lparr>session_log := l\<rparr>"
      by blast
    then have "c1 = c\<lparr>send_paused := sp, session_log := l\<rparr>" by simp
    then show ?thesis by blast
  qed
  show ?thesis
  proof (cases "send_paused c")
    case True
    show ?thesis
    proof (cases "send_buf_len c \<le> send_low_water c")
      case T2: True
      with True assms have "call_session (c\<lparr>send_paused := False\<rparr>) Resume_writing = Inr c1"
        by (simp add: pause_resume_writing_def)
      then show ?thesis by (rule call)
    next
      case False
      with True assms have "c1 = c" by (simp add: pause_resume_writing_def)
      then show ?thesis by (rule same)
    qed
  next
    case False
    show ?thesis
    proof (cases "send_buf_len c > send_high_water c")
      case True
      with False assms have "call_session (c\<lparr>send_paused := True\<rparr>) Pause_writing = Inr c1"
        by (simp add: pause_resume_writing_def)
      then show ?thesis by (rule call)
    next
      case F2: False
      with False assms have "c1 = c" by (simp add: pause_resume_writing_def)
      then show ?thesis by (rule same)
    qed
  qed
qed

text \<open>What the end of \<open>_flush_send_buf\<close> does to a close that is pending or sent.\<close>

lemma flush_tail_closing:
  assumes "flush_tail c = Inr c'"
  shows "send_buf c' = send_buf c
     \<and> (send_state c = S_close_pending \<longrightarrow>
          send_state c' = (if send_buf c = [] then S_close_sent else S_close_pending)
          \<and> closes c' = closes c + (if send_buf c = [] then 1 else 0))
     \<and> (send_state c = S_close_sent \<longrightarrow> send_state c' = S_close_sent \<and> closes c' = closes c)"
proof -
  from assms obtain c1 where p: "pause_resume_writing c = Inr c1"
    by (auto simp: flush_tail_def split: sum.splits)
  from pause_resume_frame [OF p] obtain sp l where
    c1: "c1 = c\<lparr>send_paused := sp, session_log := l\<rparr>" by blast
  then have f: "send_buf c1 = send_buf c" "send_state c1 = send_state c" "closes c1 = closes c"
    "conn_log c1 = conn_log c"
    by (simp_all add: closes_def)
  show ?thesis
  proof (cases "send_buf c = [] \<and> send_state c = S_close_pending")
    case True
    with assms p f obtain c2 where s: "send_packet c1 MSG_CHANNEL_CLOSE = Inr c2"
      and c': "c' = c2\<lparr>send_state := S_close_sent\<rparr>"
      by (auto simp: flush_tail_def split: sum.splits)
    from s obtain n where "c2 = c1\<lparr>conn_log := conn_log c1 @ [Send_packet n MSG_CHANNEL_CLOSE]\<rparr>"
      by (auto simp: send_packet_def split: option.splits if_splits)
    with c' f True show ?thesis by (simp add: closes_def)
  next
    case False
    show ?thesis
    proof (cases "send_buf c = [] \<and> send_state c = S_eof_pending")
      case True
      with assms p f obtain c2 where s: "send_packet c1 MSG_CHANNEL_EOF = Inr c2"
        and c': "c' = c2\<lparr>send_state := S_eof_sent\<rparr>"
        by (auto simp: flush_tail_def split: sum.splits)
      from s obtain n where "c2 = c1\<lparr>conn_log := conn_log c1 @ [Send_packet n MSG_CHANNEL_EOF]\<rparr>"
        by (auto simp: send_packet_def split: option.splits if_splits)
      with c' f True show ?thesis by (simp add: closes_def)
    next
      case F2: False
      with False assms p f have "c' = c1"
        by (auto simp: flush_tail_def split: if_splits)
      with f False F2 show ?thesis by auto
    qed
  qed
qed

lemma flush_send_buf_pending:
  assumes "flush_send_buf c = Some (Inr c')" and "send_state c = S_close_pending"
  shows "close_progress (closes c) c'"
proof -
  from assms(1) obtain c1 where l: "flush_loop c = Some (Inr c1)" and t: "flush_tail c1 = Inr c'"
    by (auto simp: flush_send_buf_def split: option.splits sum.splits)
  from flush_loop_frame [OF l] assms(2) have "send_state c1 = S_close_pending" "closes c1 = closes c"
    by simp_all
  with flush_tail_closing [OF t] show ?thesis
    by (auto simp: close_progress_def)
qed

lemma flush_send_buf_sent:
  assumes "flush_send_buf c = Some (Inr c')" and "send_state c = S_close_sent" and "send_buf c = []"
  shows "send_state c' = S_close_sent \<and> send_buf c' = [] \<and> closes c' = closes c"
proof -
  from assms(3) have "flush_loop c = Some (Inr c)"
    by (subst flush_loop.simps) (simp add: can_send_def)
  with assms(1) have t: "flush_tail c = Inr c'"
    by (simp add: flush_send_buf_def)
  from flush_tail_closing [OF t] assms(2,3) show ?thesis by simp
qed

text \<open>Further calls of \<open>close()\<close> and window adjustments keep the close where it stands or drain it.\<close>

lemma run_close_progress:
  "close_progress k c \<Longrightarrow> run_close c evs = Some (Inr c') \<Longrightarrow> close_progress k c'"
proof (induction evs arbitrary: c)
  case Nil
  then show ?case by simp
next
  case (Cons ev evs)
  show ?case
  proof (cases ev)
    case Call_close
    from Cons.prems(1) have "close c = Some (Inr c)"
      by (auto simp: close_progress_def close_def)
    with Cons.prems(2) Call_close have "run_close c evs = Some (Inr c')"
      by (simp add: and_then_def)
    from Cons.IH [OF Cons.prems(1) this] show ?thesis .
  next
    case (Window_adjust n)
    with Cons.prems(2) obtain c1 where a: "process_window_adjust c n = Some (Inr c1)"
      and r: "run_close c1 evs = Some (Inr c')"
      by (auto simp: and_then_def split: option.splits sum.splits)
    from a obtain w where f: "flush_send_buf (c\<lparr>send_window := Some (w + n)\<rparr>) = Some (Inr c1)"
      by (auto simp: process_window_adjust_def split: if_splits option.splits)
    let ?c = "c\<lparr>send_window := Some (w + n)\<rparr>"
    have cl: "closes ?c = closes c" by (simp add: closes_def)
    have "close_progress k c1"
    proof (cases "send_state c = S_close_pending")
      case True
      then have "send_state ?c = S_close_pending" by simp
      from flush_send_buf_pending [OF f this] cl Cons.prems(1) True show ?thesis
        by (simp add: close_progress_def)
    next
      case False
      with Cons.prems(1) have s: "send_state ?c = S_close_sent" "send_buf ?c = []"
        and k: "closes c = Suc k"
        by (auto simp: close_progress_def)
      from flush_send_buf_sent [OF f s] cl k show ?thesis
        by (simp add: close_progress_def)
    qed
    from Cons.IH [OF this r] show ?thesis .
  qed
qed


text \<open>On a ready, open channel the calls return, whatever their number and order.\<close>

lemma close_returns:
  assumes "ready c"
  shows "\<exists>c'. close c = Some (Inr c') \<and> ready c' \<and> recv_state c' = recv_state c"
proof (cases "send_state c \<in> {S_close_pending, S_close_sent, S_closed}")
  case True
  with assms show ?thesis by (simp add: close_def)
next
  case False
  from assms have "ready (c\<lparr>send_state := S_close_pending\<rparr>)" by (simp add: ready_def)
  from flush_send_buf_returns [OF this] False show ?thesis by (simp add: close_def)
qed

lemma window_adjust_returns:
  assumes "ready c" and "recv_state c \<in> {R_open, R_eof_received}" and "0 \<le> n"
  shows "\<exists>c'. process_window_adjust c n = Some (Inr c') \<and> ready c' \<and> recv_state c' = recv_state c"
proof -
  from assms(1) obtain w where w: "send_window c = Some w" "0 \<le> w"
    by (auto simp: ready_def split: option.splits)
  with assms(1,3) have "ready (c\<lparr>send_window := Some (w + n)\<rparr>)" by (simp add: ready_def)
  from flush_send_buf_returns [OF this] w assms(2) show ?thesis
    by (simp add: process_window_adjust_def)
qed

lemma run_close_returns:
  "ready c \<Longrightarrow> recv_state c \<in> {R_open, R_eof_received}
     \<Longrightarrow> \<forall>n. Window_adjust n \<in> set evs \<longrightarrow> 0 \<le> n
     \<Longrightarrow> \<exists>c'. run_close c evs = Some (Inr c')"
proof (induction evs arbitrary: c)
  case Nil
  then show ?case by simp
next
  case (Cons ev evs)
  from Cons.prems(3) have rest: "\<forall>n. Window_adjust n \<in> set evs \<longrightarrow> 0 \<le> n" by simp
  show ?case
  proof (cases ev)
    case Call_close
    from close_returns [OF Cons.prems(1)] obtain c1 where
      c1: "close c = Some (Inr c1)" "ready c1" "recv_state c1 = recv_state c"
      by blast
    with Cons.prems(2) have "recv_state c1 \<in> {R_open, R_eof_received}" by simp
    from Cons.IH [OF c1(2) this rest] c1(1) Call_close show ?thesis
      by (simp add: and_then_def)
  next
    case (Window_adjust n)
    with Cons.prems(3) have "0 \<le> n" by simp
    from window_adjust_returns [OF Cons.prems(1,2) this] obtain c1 where
      c1: "process_window_adjust c n = Some (Inr c1)" "ready c1" "recv_state c1 = recv_state c"
      by blast
    with Cons.prems(2) have "recv_state c1 \<in> {R_open, R_eof_received}" by simp
    from Cons.IH [OF c1(2) this rest] c1(1) Window_adjust show ?thesis
      by (simp add: and_then_def)
  qed
qed

text \<open>
  C8: \<open>close()\<close> on a channel whose \<open>send_state\<close> is \<open>close_pending\<close>,
  \<open>close_sent\<close> or \<open>closed\<close> returns the channel unchanged. After a first
  \<open>close()\<close>, followed by any further calls of \<open>close()\<close> and any window adjustments
  from the peer, the channel has sent exactly one \<open>CHANNEL_CLOSE\<close> more than before if
  its send buffer has drained, and none while data is still buffered; its state is
  \<open>close_sent\<close> in the first case and \<open>close_pending\<close> in the second. On a ready,
  open channel all these calls return.
\<close>

theorem close_idempotent:
  "(send_state c \<in> {S_close_pending, S_close_sent, S_closed} \<longrightarrow> close c = Some (Inr c))
   \<and> (send_state c \<notin> {S_close_pending, S_close_sent, S_closed}
        \<and> run_close c (Call_close # evs) = Some (Inr c')
      \<longrightarrow> closes c' = closes c + (if send_buf c' = [] then 1 else 0)
          \<and> send_state c' = (if send_buf c' = [] then S_close_sent else S_close_pending)
          \<and> close c' = Some (Inr c'))
   \<and> (ready c \<and> recv_state c \<in> {R_open, R_eof_received}
        \<and> (\<forall>n. Window_adjust n \<in> set evs \<longrightarrow> 0 \<le> n)
      \<longrightarrow> (\<exists>c'. run_close c (Call_close # evs) = Some (Inr c')))"
proof -
  have idem: "close c = Some (Inr c)"
    if "send_state c \<in> {S_close_pending, S_close_sent, S_closed}"
    using that by (simp add: close_def)
  have once: "closes c' = closes c + (if send_buf c' = [] then 1 else 0)
          \<and> send_state c' = (if send_buf c' = [] then S_close_sent else S_close_pending)
          \<and> close c' = Some (Inr c')"
    if st: "send_state c \<notin> {S_close_pending, S_close_sent, S_closed}"
      and run: "run_close c (Call_close # evs) = Some (Inr c')"
  proof -
    from run obtain c1 where c1: "close c = Some (Inr c1)" and r: "run_close c1 evs = Some (Inr c')"
      by (auto simp: and_then_def split: option.splits sum.splits)
    from c1 st have f: "flush_send_buf (c\<lparr>send_state := S_close_pending\<rparr>) = Some (Inr c1)"
      by (simp add: close_def)
    have "closes (c\<lparr>send_state := S_close_pending\<rparr>) = closes c" by (simp add: closes_def)
    with flush_send_buf_pending [OF f] have "close_progress (closes c) c1" by simp
    from run_close_progress [OF this r] have "close_progress (closes c) c'" .
    then show ?thesis by (auto simp: close_progress_def close_def)
  qed
  have returns: "\<exists>c'. run_close c (Call_close # evs) = Some (Inr c')"
    if "ready c" "recv_state c \<in> {R_open, R_eof_received}"
      "\<forall>n. Window_adjust n \<in> set evs \<longrightarrow> 0 \<le> n"
  proof -
    from that(3) have "\<forall>n. Window_adjust n \<in> set (Call_close # evs) \<longrightarrow> 0 \<le> n" by simp
    from run_close_returns [OF that(1,2) this] show ?thesis .
  qed
  from idem once returns show ?thesis by blast
qed

text \<open>
  Six bytes wait behind a closed window; \<open>close()\<close> is called four times while two
  window adjustments drain them, and one \<open>CHANNEL_CLOSE\<close> follows the data.
\<close>

lemma backlogged_reachable:
  "write_data cs (opened None 100 {} {} 0) (Raw (replicate 6 7)) None = Some (Inr backlogged)"
  by (simp add: write_data_def sdata_len_def encoding_set_def buffer_and_flush_def send_defs
      flush_loop.simps chan_defs backlogged_def)

lemma run_close_example:
  "observe (\<lambda>c. (send_state c, send_buf c, conn_log c))
     (run_close backlogged
       [Call_close, Call_close, Window_adjust 4, Call_close, Window_adjust 100, Call_close])
   = Some (S_close_sent, [],
       [Send_channel_open_confirmation (Some 0) (Some 1) 100 32768,
        Send_packet 0 (MSG_CHANNEL_DATA (replicate 4 7)),
        Send_packet 0 (MSG_CHANNEL_DATA (replicate 2 7)),
        Send_packet 0 MSG_CHANNEL_CLOSE])"
  by (simp add: observe_def and_then_def close_def process_window_adjust_def send_defs
      flush_loop.simps chan_defs backlogged_def)

theorem close_idempotent_witness:
  "send_state backlogged = S_open \<and> ready backlogged \<and> recv_state backlogged = R_open
   \<and> (\<exists>c'. run_close backlogged
          [Call_close, Call_close, Window_adjust 4, Call_close, Window_adjust 100, Call_close]
          = Some (Inr c')
        \<and> send_buf c' = [] \<and> closes c' = closes backlogged + 1
        \<and> send_state c' = S_close_sent \<and> close c' = Some (Inr c'))"
proof -
  let ?evs = "[Call_close, Window_adjust 4, Call_close, Window_adjust 100, Call_close]"
  have st: "send_state backlogged = S_open" and rs: "recv_state backlogged = R_open"
    and rd: "ready backlogged"
    by (simp_all add: ready_def chan_defs backlogged_def)
  have adj: "\<forall>n. Window_adjust n \<in> set ?evs \<longrightarrow> 0 \<le> n" by simp
  from st have st': "send_state backlogged \<notin> {S_close_pending, S_close_sent, S_closed}" by simp
  from rs have rs': "recv_state backlogged \<in> {R_open, R_eof_received}" by simp
  note returns = close_idempotent [THEN conjunct2, THEN conjunct2, rule_format]
  from returns [OF conjI [OF rd conjI [OF rs' adj]]] obtain c' where
    run: "run_close backlogged (Call_close # ?evs) = Some (Inr c')"
    by blast
  with run_close_example have e: "send_buf c' = []" by (simp add: observe_def)
  note once = close_idempotent [THEN conjunct2, THEN conjunct1, rule_format]
  from once [OF conjI [OF st' run]] e
  have "closes c' = closes backlogged + 1 \<and> send_state c' = S_close_sent \<and> close c' = Some (Inr c')"
    by simp
  with st rs rd run e show ?thesis by blast
qed

end
